theory Spec2Isabelle
  imports Main "HOL-Library.AList" "HOL-Library.Char_ord" "HOL-Library.List_Lexorder"
    "HOL-Library.Multiset" "HOL-Library.Sublist"
begin

section \<open>The subdirectory lister of juxta-mvp\<close>

text \<open>
  The program \<^verbatim>\<open>applications/juxta-mvp/subfolder_list_fixed.py\<close> is one function,
  \<^verbatim>\<open>main\<close>: it creates the parent directories of two files, lists the immediate
  subdirectories of a directory, writes the sorted listing to the first file and an empty
  marker to the second. Everything it does goes through \<^verbatim>\<open>os\<close>, \<^verbatim>\<open>os.path\<close>
  and \<^verbatim>\<open>open\<close>, so the embedding has three layers:
  \<^item> the string functions of \<^verbatim>\<open>posixpath\<close> (\<^verbatim>\<open>split\<close>, \<^verbatim>\<open>dirname\<close>, \<^verbatim>\<open>join\<close>),
    written after CPython 3.11;
  \<^item> a POSIX file system as explicit state: a table from canonical locations to nodes
    (regular file with its bytes, directory, symbolic link), the working directory, and
    the log of the system calls that changed the table; path resolution follows symbolic
    links with the kernel's bound on their number;
  \<^item> \<^verbatim>\<open>main\<close> itself, statement by statement, every exception a value.

  Modelling assumptions, fixed here once: strings are byte strings (a path is the bytes
  the kernel sees, and Python's comparison of \<^verbatim>\<open>str\<close> agrees with byte order on valid
  UTF-8); the process may read and write everywhere (no permission bits, no full disk);
  a regular file has one name (no hard links); nothing else touches the file system
  while the program runs.
\<close>

subsection \<open>posixpath\<close>

abbreviation (input) sep :: char where
  "sep \<equiv> CHR ''/''"

definition startswith_sep :: "string \<Rightarrow> bool" where
  "startswith_sep p = (case p of [] \<Rightarrow> False | c # _ \<Rightarrow> c = sep)"

definition endswith_sep :: "string \<Rightarrow> bool" where
  "endswith_sep p = (p \<noteq> [] \<and> last p = sep)"

text \<open>\<^verbatim>\<open>p.rfind('/') + 1\<close>: the index after the last separator, 0 when there is none.\<close>

definition rfind_sep :: "string \<Rightarrow> nat" where
  "rfind_sep p = length (dropWhile (\<lambda>c. c \<noteq> sep) (rev p))"

text \<open>\<^verbatim>\<open>head.rstrip('/')\<close>.\<close>

definition rstrip_sep :: "string \<Rightarrow> string" where
  "rstrip_sep p = rev (dropWhile (\<lambda>c. c = sep) (rev p))"

text \<open>
  \<^verbatim>\<open>posixpath.split\<close>: head and tail around the last separator; trailing separators
  are stripped from the head unless the head is nothing but separators.
\<close>

definition path_split :: "string \<Rightarrow> string \<times> string" where
  "path_split p =
     (let i = rfind_sep p; head = take i p; tail = drop i p
      in (if head \<noteq> [] \<and> head \<noteq> replicate (length head) sep then rstrip_sep head else head,
          tail))"

text \<open>\<^verbatim>\<open>posixpath.dirname\<close>: the same computation, the head only.\<close>

definition dirname :: "string \<Rightarrow> string" where
  "dirname p =
     (let i = rfind_sep p; head = take i p
      in if head \<noteq> [] \<and> head \<noteq> replicate (length head) sep then rstrip_sep head else head)"

text \<open>\<^verbatim>\<open>posixpath.join(a, b)\<close> with one component \<open>b\<close>.\<close>

definition path_join :: "string \<Rightarrow> string \<Rightarrow> string" where
  "path_join a b =
     (if startswith_sep b then b
      else if a = [] \<or> endswith_sep a then a @ b
      else a @ [sep] @ b)"

text \<open>\<^verbatim>\<open>s.join(xs)\<close>.\<close>

fun str_join :: "string \<Rightarrow> string list \<Rightarrow> string" where
  "str_join s [] = []"
| "str_join s [x] = x"
| "str_join s (x # y # ys) = x @ s @ str_join s (y # ys)"

definition newline :: string where
  "newline = [CHR 0x0A]"

subsection \<open>The file system\<close>

type_synonym path = "string list"

datatype node = File string | Dir | Link string

datatype errno = ENOENT | EEXIST | ENOTDIR | EISDIR | ELOOP | EBADF

text \<open>
  A system call that changed the table, with the path string it was given:
  \<open>Ev_mkdir p q\<close> created a directory at location \<open>q\<close>, \<open>Ev_open p q\<close> created or
  truncated the regular file at location \<open>q\<close>, \<open>Ev_write q data\<close> stored \<open>data\<close> in the
  file opened at \<open>q\<close>.
\<close>

datatype event = Ev_mkdir string path | Ev_open string path | Ev_write path string

text \<open>
  A location is the list of names from the root, \<open>[]\<close> the root itself. The table is an
  association list: its order is the order in which a directory is enumerated.
\<close>

record fs =
  entries :: "(path \<times> node) list"
  cwd :: path
  events :: "event list"

definition node_at :: "fs \<Rightarrow> path \<Rightarrow> node option" where
  "node_at s q = (if q = [] then Some Dir else map_of (entries s) q)"

text \<open>The kernel follows at most 40 symbolic links in one resolution.\<close>

definition MAXSYMLINKS :: nat where
  "MAXSYMLINKS = 40"

text \<open>\<^verbatim>\<open>p.split('/')\<close>, and the names of a path: its non-empty pieces.\<close>

fun split_sep :: "string \<Rightarrow> string list" where
  "split_sep [] = [[]]"
| "split_sep (c # cs) =
     (if c = sep then [] # split_sep cs
      else (case split_sep cs of [] \<Rightarrow> [[c]] | x # xs \<Rightarrow> (c # x) # xs))"

definition comps :: "string \<Rightarrow> string list" where
  "comps p = filter (\<lambda>c. c \<noteq> []) (split_sep p)"

text \<open>A trailing separator asks for a directory: the path is looked up as \<^verbatim>\<open>p/.\<close>\<close>

definition lookup_comps :: "string \<Rightarrow> string list" where
  "lookup_comps p = comps p @ (if endswith_sep p then [''.''] else [])"

text \<open>
  Path resolution from the directory \<open>cur\<close> through the names \<open>cs\<close>, with \<open>n\<close> symbolic
  links still allowed. Every name but the last must lead to a directory; the last may be
  missing (the result is then the location where it would be created). A symbolic link in
  the last place is followed when \<open>follow\<close> is set.
\<close>

fun walk :: "nat \<Rightarrow> (path \<Rightarrow> node option) \<Rightarrow> path \<Rightarrow> string list \<Rightarrow> bool \<Rightarrow> errno + path" where
  "walk n m cur [] follow = Inr cur"
| "walk n m cur (c # cs) follow =
     (if c = ''.'' then walk n m cur cs follow
      else if c = ''..'' then walk n m (butlast cur) cs follow
      else (case m (cur @ [c]) of
              None \<Rightarrow> if cs = [] then Inr (cur @ [c]) else Inl ENOENT
            | Some Dir \<Rightarrow> walk n m (cur @ [c]) cs follow
            | Some (File _) \<Rightarrow> if cs = [] then Inr (cur @ [c]) else Inl ENOTDIR
            | Some (Link t) \<Rightarrow>
                if cs = [] \<and> \<not> follow then Inr (cur @ [c])
                else (case n of
                        0 \<Rightarrow> Inl ELOOP
                      | Suc k \<Rightarrow>
                          if t = [] then Inl ENOENT
                          else walk k m (if startswith_sep t then [] else cur)
                                 (lookup_comps t @ cs) follow)))"

definition resolve :: "fs \<Rightarrow> bool \<Rightarrow> string \<Rightarrow> string list \<Rightarrow> errno + path" where
  "resolve s follow p cs =
     (if p = [] then Inl ENOENT
      else walk MAXSYMLINKS (map_of (entries s)) (if startswith_sep p then [] else cwd s) cs follow)"

text \<open>The location a path names, symbolic links followed.\<close>

definition locate :: "fs \<Rightarrow> string \<Rightarrow> errno + path" where
  "locate s p = resolve s True p (lookup_comps p)"

text \<open>\<^verbatim>\<open>os.stat\<close> (following links), and \<^verbatim>\<open>os.path.isdir\<close>, \<^verbatim>\<open>os.path.exists\<close> on it.\<close>

definition stat :: "fs \<Rightarrow> string \<Rightarrow> errno + node" where
  "stat s p =
     (case locate s p of
        Inl e \<Rightarrow> Inl e
      | Inr q \<Rightarrow> (case node_at s q of None \<Rightarrow> Inl ENOENT | Some nd \<Rightarrow> Inr nd))"

definition isdir :: "fs \<Rightarrow> string \<Rightarrow> bool" where
  "isdir s p = (case stat s p of Inr Dir \<Rightarrow> True | _ \<Rightarrow> False)"

definition exists_path :: "fs \<Rightarrow> string \<Rightarrow> bool" where
  "exists_path s p = (case stat s p of Inr _ \<Rightarrow> True | Inl _ \<Rightarrow> False)"

text \<open>\<^verbatim>\<open>os.mkdir\<close>: the last name is not followed, and must not exist.\<close>

definition mkdir :: "string \<Rightarrow> fs \<Rightarrow> (errno + unit) \<times> fs" where
  "mkdir p s =
     (case resolve s False p (comps p) of
        Inl e \<Rightarrow> (Inl e, s)
      | Inr q \<Rightarrow>
          (case node_at s q of
             Some _ \<Rightarrow> (Inl EEXIST, s)
           | None \<Rightarrow>
               (Inr (), s\<lparr>entries := AList.update q Dir (entries s),
                          events := events s @ [Ev_mkdir p q]\<rparr>)))"

text \<open>
  \<^verbatim>\<open>open(p, 'w')\<close>: \<^verbatim>\<open>O_WRONLY | O_CREAT | O_TRUNC\<close>. The file is created or
  emptied; the result is the location of the open file. A path with a trailing
  separator is refused once its directories are resolved.
\<close>

definition open_w :: "string \<Rightarrow> fs \<Rightarrow> (errno + path) \<times> fs" where
  "open_w p s =
     (if endswith_sep p then
        (case resolve s True p (butlast (comps p) @ [''.'']) of
           Inl e \<Rightarrow> (Inl e, s)
         | Inr _ \<Rightarrow> (Inl EISDIR, s))
      else
        (case locate s p of
           Inl e \<Rightarrow> (Inl e, s)
         | Inr q \<Rightarrow>
             (case node_at s q of
                Some Dir \<Rightarrow> (Inl EISDIR, s)
              | Some (Link _) \<Rightarrow> (Inl ELOOP, s)
              | _ \<Rightarrow>
                  (Inr q, s\<lparr>entries := AList.update q (File []) (entries s),
                            events := events s @ [Ev_open p q]\<rparr>))))"

text \<open>\<^verbatim>\<open>f.write(data)\<close> at offset 0 of the open file, flushed when the file is closed.\<close>

definition write_text :: "path \<Rightarrow> string \<Rightarrow> fs \<Rightarrow> (errno + unit) \<times> fs" where
  "write_text q data s =
     (case node_at s q of
        Some (File old) \<Rightarrow>
          (Inr (), s\<lparr>entries := AList.update q (File (data @ drop (length data) old)) (entries s),
                     events := events s @ [Ev_write q data]\<rparr>)
      | _ \<Rightarrow> (Inl EBADF, s))"

text \<open>\<^verbatim>\<open>with open(p, 'w') as f: f.write(data)\<close>\<close>

definition write_file :: "string \<Rightarrow> string \<Rightarrow> fs \<Rightarrow> (errno + unit) \<times> fs" where
  "write_file p data s =
     (case open_w p s of
        (Inl e, s1) \<Rightarrow> (Inl e, s1)
      | (Inr q, s1) \<Rightarrow> write_text q data s1)"

text \<open>\<^verbatim>\<open>os.listdir\<close>: the names in the directory, in the table's order.\<close>

definition children :: "fs \<Rightarrow> path \<Rightarrow> string list" where
  "children s q = map (\<lambda>(k, nd). last k) (filter (\<lambda>(k, nd). k \<noteq> [] \<and> butlast k = q) (entries s))"

definition listdir :: "fs \<Rightarrow> string \<Rightarrow> errno + string list" where
  "listdir s p =
     (case locate s p of
        Inl e \<Rightarrow> Inl e
      | Inr q \<Rightarrow>
          (case node_at s q of
             None \<Rightarrow> Inl ENOENT
           | Some Dir \<Rightarrow> Inr (children s q)
           | Some _ \<Rightarrow> Inl ENOTDIR))"

subsection \<open>os.makedirs(name, exist\_ok=True)\<close>

text \<open>
  \<^verbatim>\<open>mkdir(name)\<close> under \<^verbatim>\<open>except OSError\<close>: the error is dropped when \<open>name\<close> is a
  directory afterwards.
\<close>

definition mkdir_exist_ok :: "string \<Rightarrow> fs \<Rightarrow> (errno + unit) \<times> fs" where
  "mkdir_exist_ok name s =
     (case mkdir name s of
        (Inl e, s1) \<Rightarrow> if isdir s1 name then (Inr (), s1) else (Inl e, s1)
      | (Inr u, s1) \<Rightarrow> (Inr u, s1))"

text \<open>The head and tail that \<^verbatim>\<open>makedirs\<close> works with: split again when the tail is empty.\<close>

definition split2 :: "string \<Rightarrow> string \<times> string" where
  "split2 name =
     (case path_split name of
        (head, tail) \<Rightarrow> if tail = [] then path_split head else (head, tail))"

function makedirs :: "string \<Rightarrow> fs \<Rightarrow> (errno + unit) \<times> fs" where
  "makedirs name s =
     (if fst (split2 name) \<noteq> [] \<and> snd (split2 name) \<noteq> [] \<and> \<not> exists_path s (fst (split2 name))
      then
        (case makedirs (fst (split2 name)) s of
           (Inl e, s1) \<Rightarrow>
             if e = EEXIST then
               (if snd (split2 name) = ''.'' then (Inr (), s1) else mkdir_exist_ok name s1)
             else (Inl e, s1)
         | (Inr _, s1) \<Rightarrow>
             if snd (split2 name) = ''.'' then (Inr (), s1) else mkdir_exist_ok name s1)
      else mkdir_exist_ok name s)"
  by pat_completeness auto
termination
proof (relation "measure (\<lambda>(name, s). length name)")
  show "wf (measure (\<lambda>(name, s). length name))"
    by simp
next
  fix name :: string and s :: fs
  assume "fst (split2 name) \<noteq> [] \<and> snd (split2 name) \<noteq> [] \<and> \<not> exists_path s (fst (split2 name))"
  then have t: "snd (split2 name) \<noteq> []"
    by simp
  have le: "length (fst (path_split p)) \<le> rfind_sep p" for p
    by (simp add: path_split_def Let_def rstrip_sep_def)
      (metis length_dropWhile_le length_rev length_take min.cobounded1 order_trans min.cobounded2)
  have r: "rfind_sep p \<le> length p" for p
    by (simp add: rfind_sep_def) (metis length_dropWhile_le length_rev)
  have lt: "snd (path_split p) \<noteq> [] \<Longrightarrow> rfind_sep p < length p" for p
    by (simp add: path_split_def Let_def)
  have s2: "split2 p = (if snd (path_split p) = [] then path_split (fst (path_split p)) else path_split p)" for p
    by (simp add: split2_def case_prod_beta)
  have "length (fst (split2 name)) < length name"
  proof (cases "snd (path_split name) = []")
    case True
    with t have "snd (path_split (fst (path_split name))) \<noteq> []"
      by (simp add: s2)
    then have "rfind_sep (fst (path_split name)) < length (fst (path_split name))"
      by (rule lt)
    moreover have "length (fst (path_split name)) \<le> length name"
      using le [of name] r [of name] by simp
    moreover have "length (fst (path_split (fst (path_split name)))) \<le> rfind_sep (fst (path_split name))"
      by (rule le)
    ultimately show ?thesis
      using True by (simp add: s2)
  next
    case False
    then have "rfind_sep name < length name"
      by (rule lt)
    then show ?thesis
      using False le [of name] by (simp add: s2)
  qed
  then show "((fst (split2 name), s), (name, s)) \<in> measure (\<lambda>(name, s). length name)"
    by simp
qed

declare makedirs.simps [simp del]

subsection \<open>main\<close>

record args =
  directory :: string
  out_file :: string
  trigger_file :: string

text \<open>
  Lines 19 to 22: the parent directory of the output file, then, when a trigger path is
  given, the parent directory of the trigger file.
\<close>

definition ensure_dirs :: "args \<Rightarrow> fs \<Rightarrow> (errno + unit) \<times> fs" where
  "ensure_dirs a s =
     (case makedirs (dirname (out_file a)) s of
        (Inl e, s1) \<Rightarrow> (Inl e, s1)
      | (Inr _, s1) \<Rightarrow>
          if trigger_file a \<noteq> [] then makedirs (dirname (trigger_file a)) s1
          else (Inr (), s1))"

text \<open>Lines 26 to 29: the loop over the names that \<^verbatim>\<open>os.listdir\<close> returned.\<close>

fun collect :: "fs \<Rightarrow> string \<Rightarrow> string list \<Rightarrow> string list \<Rightarrow> string list" where
  "collect s base_dir [] subdirs = subdirs"
| "collect s base_dir (item # items) subdirs =
     (let item_path = path_join base_dir item
      in if isdir s item_path
         then collect s base_dir items (subdirs @ [path_join base_dir item])
         else collect s base_dir items subdirs)"

text \<open>Lines 24 to 29.\<close>

definition list_subdirs :: "fs \<Rightarrow> string \<Rightarrow> errno + string list" where
  "list_subdirs s base_dir =
     (if isdir s base_dir then
        (case listdir s base_dir of
           Inl e \<Rightarrow> Inl e
         | Inr items \<Rightarrow> Inr (collect s base_dir items []))
      else Inr [])"

text \<open>The text written at line 33.\<close>

definition listing :: "string list \<Rightarrow> string" where
  "listing subdirs = str_join newline (sort subdirs)"

text \<open>Lines 36 to 38.\<close>

definition create_trigger :: "args \<Rightarrow> fs \<Rightarrow> (errno + unit) \<times> fs" where
  "create_trigger a s =
     (if trigger_file a \<noteq> [] then write_file (trigger_file a) [] s else (Inr (), s))"

text \<open>
  \<^verbatim>\<open>main\<close> after the arguments are parsed. The result is the exception that ended the
  run (\<open>Inl\<close>) or normal completion, with the file system as the run left it.
\<close>

definition main :: "args \<Rightarrow> fs \<Rightarrow> (errno + unit) \<times> fs" where
  "main a s =
     (case ensure_dirs a s of
        (Inl e, s1) \<Rightarrow> (Inl e, s1)
      | (Inr _, s1) \<Rightarrow>
          (case list_subdirs s1 (directory a) of
             Inl e \<Rightarrow> (Inl e, s1)
           | Inr subdirs \<Rightarrow>
               (case write_file (out_file a) (listing subdirs) s1 of
                  (Inl e, s2) \<Rightarrow> (Inl e, s2)
                | (Inr _, s2) \<Rightarrow> create_trigger a s2)))"

subsection \<open>Auxiliary notions for the proofs\<close>

text \<open>
  The table of a state as a map. A table extends another when every location keeps its
  kind: a directory stays a directory, a symbolic link stays the same link, a file stays
  a file (its bytes may change), and a free location may receive a file or a directory.
  \<open>grows P s s'\<close>: the state \<open>s'\<close> comes from \<open>s\<close> by \<^verbatim>\<open>mkdir\<close> calls on paths that
  satisfy \<open>P\<close>, and by nothing else.
\<close>

abbreviation (input) tbl :: "fs \<Rightarrow> path \<Rightarrow> node option" where
  "tbl s \<equiv> map_of (entries s)"

definition kind_le :: "node option \<Rightarrow> node option \<Rightarrow> bool" where
  "kind_le x y =
     (case x of
        None \<Rightarrow> (case y of Some (Link _) \<Rightarrow> False | _ \<Rightarrow> True)
      | Some Dir \<Rightarrow> y = Some Dir
      | Some (File _) \<Rightarrow> (case y of Some (File _) \<Rightarrow> True | _ \<Rightarrow> False)
      | Some (Link t) \<Rightarrow> y = Some (Link t))"

definition ext :: "(path \<Rightarrow> node option) \<Rightarrow> (path \<Rightarrow> node option) \<Rightarrow> bool" where
  "ext m m' = (\<forall>q. kind_le (m q) (m' q))"

definition grows :: "(string \<Rightarrow> bool) \<Rightarrow> fs \<Rightarrow> fs \<Rightarrow> bool" where
  "grows P s s' =
     (cwd s' = cwd s \<and>
      (\<forall>q nd. tbl s q = Some nd \<longrightarrow> tbl s' q = Some nd) \<and>
      (\<exists>new. events s' = events s @ new \<and>
         (\<forall>e \<in> set new. \<exists>p q. e = Ev_mkdir p q \<and> P p) \<and>
         (\<forall>q. tbl s q = None \<longrightarrow>
              tbl s' q = None \<or>
              (tbl s' q = Some Dir \<and> (\<exists>p. Ev_mkdir p q \<in> set new \<and> locate s' p = Inr q)))))"

definition wrote :: "string \<Rightarrow> fs \<Rightarrow> fs \<Rightarrow> bool" where
  "wrote p s s' =
     (s' = s \<or>
      (\<exists>q data. q \<noteq> [] \<and> locate s p = Inr q \<and>
         (tbl s q = None \<or> (\<exists>c. tbl s q = Some (File c))) \<and>
         cwd s' = cwd s \<and> tbl s' = (tbl s)(q \<mapsto> File data) \<and>
         events s' = events s @ [Ev_open p q, Ev_write q data]))"

text \<open>
  \<open>on_path p name\<close>: the path \<open>p\<close> is a leading part of the path \<open>name\<close> that ends where
  a name of \<open>name\<close> ends, as \<^verbatim>\<open>/o\<close> and \<^verbatim>\<open>/o/sub\<close> are for \<^verbatim>\<open>/o/sub/list.txt\<close>, and
  \<^verbatim>\<open>/o/su\<close> is not. \<open>lies_in s d f\<close>: in the state \<open>s\<close> the path \<open>f\<close>, or a directory on the
  way to it, names an entry of the directory at location \<open>d\<close>.
\<close>

definition on_path :: "string \<Rightarrow> string \<Rightarrow> bool" where
  "on_path p name = (prefix p name \<and> prefix (comps p) (comps name))"

definition lies_in :: "fs \<Rightarrow> path \<Rightarrow> string \<Rightarrow> bool" where
  "lies_in s d f =
     list_ex (\<lambda>p. on_path p f \<and>
                (case locate s p of Inl e \<Rightarrow> False | Inr q \<Rightarrow> q \<noteq> [] \<and> butlast q = d))
       (prefixes f)"

definition demo_fs :: fs where
  "demo_fs =
     \<lparr>entries =
        [([''d''], Dir), ([''d'', ''b''], Dir), ([''d'', ''x''], File ''hi''),
         ([''d'', ''a''], Dir), ([''d'', ''B''], Dir), ([''d'', ''ld''], Link ''a''),
         ([''d'', ''lf''], Link ''/d/x'')],
      cwd = [''d''], events = []\<rparr>"

definition demo_args :: args where
  "demo_args = \<lparr>directory = ''/d'', out_file = ''/o/sub/list.txt'', trigger_file = ''/o/done''\<rparr>"

definition same_path_args :: args where
  "same_path_args = \<lparr>directory = ''/d'', out_file = ''/o/list.txt'', trigger_file = ''/o/list.txt''\<rparr>"

definition no_trigger_args :: args where
  "no_trigger_args = \<lparr>directory = ''/d'', out_file = ''o/list.txt'', trigger_file = ''''\<rparr>"

definition missing_dir_args :: args where
  "missing_dir_args = \<lparr>directory = ''/nodir'', out_file = ''/o/list.txt'', trigger_file = ''/o/done''\<rparr>"

definition nested_out_args :: args where
  "nested_out_args = \<lparr>directory = ''/nodir'', out_file = ''/nodir/a/list.txt'', trigger_file = ''/o/done''\<rparr>"

definition valid_name :: "string \<Rightarrow> bool" where
  "valid_name c = (c \<noteq> [] \<and> sep \<notin> set c \<and> c \<noteq> ''.'' \<and> c \<noteq> ''..'')"

definition names_ok :: "fs \<Rightarrow> bool" where
  "names_ok s = list_all (\<lambda>(k, nd). list_all valid_name k) (entries s)"



definition bare_name_args :: args where
  "bare_name_args = \<lparr>directory = ''/d'', out_file = ''list.txt'', trigger_file = ''/o/done''\<rparr>"

definition inside_args :: args where
  "inside_args = \<lparr>directory = ''/d'', out_file = ''/d/x'', trigger_file = ''/d/new/done''\<rparr>"

definition stale_trigger_args :: args where
  "stale_trigger_args = \<lparr>directory = ''/d'', out_file = ''/d/a'', trigger_file = ''/d/x''\<rparr>"

section \<open>Properties\<close>

subsection \<open>Path resolution in an extended table\<close>

lemma kind_le_refl: "kind_le x x"
  by (simp add: kind_le_def split: option.splits node.splits)

lemma kind_le_trans: "kind_le x y \<Longrightarrow> kind_le y z \<Longrightarrow> kind_le x z"
  by (auto simp: kind_le_def split: option.splits node.splits)

lemma ext_refl: "ext m m"
  by (simp add: ext_def kind_le_refl)

lemma ext_trans: "ext m m' \<Longrightarrow> ext m' m'' \<Longrightarrow> ext m m''"
  unfolding ext_def by (blast intro: kind_le_trans)

lemma walk_ext:
  "ext m m' \<Longrightarrow> walk n m cur cs fl = Inr r \<Longrightarrow> walk n m' cur cs fl = Inr r"
proof (induction n m cur cs fl rule: walk.induct)
  case (1 n m cur follow)
  then show ?case by simp
next
  case (2 n m cur c cs follow)
  have k: "kind_le (m (cur @ [c])) (m' (cur @ [c]))"
    using "2.prems"(1) by (simp add: ext_def)
  show ?case
  proof (cases "c = ''.'' \<or> c = ''..''")
    case True
    then show ?thesis using 2 by auto
  next
    case False
    show ?thesis
    proof (cases "m (cur @ [c])")
      case None
      then show ?thesis
        using False "2.prems" k
        by (auto simp: kind_le_def split: option.splits node.splits if_splits)
    next
      case (Some nd)
      show ?thesis
      proof (cases nd)
        case (File x)
        then show ?thesis
          using False Some "2.prems" k
          by (auto simp: kind_le_def split: option.splits node.splits if_splits)
      next
        case Dir
        then show ?thesis
          using False Some 2 k by (auto simp: kind_le_def)
      next
        case (Link t)
        then have m': "m' (cur @ [c]) = Some (Link t)"
          using Some k by (simp add: kind_le_def)
        show ?thesis
        proof (cases "cs = [] \<and> \<not> follow")
          case True
          then show ?thesis
            using False Some Link m' "2.prems" by simp
        next
          case nf: False
          show ?thesis
          proof (cases n)
            case 0
            then show ?thesis
              using False Some Link nf m' "2.prems" by (auto split: if_splits)
          next
            case (Suc k)
            then show ?thesis
              using False Some Link nf m' "2.prems" "2.IH"(4) [of nd t k]
              by (auto split: if_splits)
          qed
        qed
      qed
    qed
  qed
qed


lemma ext_upd_new:
  "m q = None \<Longrightarrow> (\<forall>t. nd \<noteq> Link t) \<Longrightarrow> ext m (m(q \<mapsto> nd))"
  by (cases nd) (auto simp: ext_def kind_le_def split: option.splits node.splits)

lemma ext_upd_file:
  "m q = Some (File c) \<Longrightarrow> ext m (m(q \<mapsto> File d))"
  by (auto simp: ext_def kind_le_def split: option.splits node.splits)

lemma node_at_tbl: "q \<noteq> [] \<Longrightarrow> node_at s q = tbl s q"
  by (simp add: node_at_def)

lemma mkdir_Inl: "mkdir p s = (Inl e, s') \<Longrightarrow> s' = s"
  by (auto simp: mkdir_def split: sum.splits option.splits)

lemma mkdir_Inr:
  "mkdir p s = (Inr u, s') \<Longrightarrow>
     \<exists>q. q \<noteq> [] \<and> tbl s q = None \<and> resolve s False p (comps p) = Inr q \<and>
         s' = s\<lparr>entries := AList.update q Dir (entries s), events := events s @ [Ev_mkdir p q]\<rparr>"
  by (auto simp: mkdir_def node_at_def split: sum.splits option.splits if_splits)

lemma open_w_Inl: "open_w p s = (Inl e, s') \<Longrightarrow> s' = s"
  by (auto simp: open_w_def split: sum.splits option.splits node.splits if_splits)

lemma open_w_Inr:
  "open_w p s = (Inr q, s') \<Longrightarrow>
     \<not> endswith_sep p \<and> locate s p = Inr q \<and> q \<noteq> [] \<and>
     (tbl s q = None \<or> (\<exists>c. tbl s q = Some (File c))) \<and>
     s' = s\<lparr>entries := AList.update q (File []) (entries s), events := events s @ [Ev_open p q]\<rparr>"
  by (auto simp: open_w_def node_at_def split: sum.splits option.splits node.splits if_splits)

lemma write_file_Inl: "write_file p data s = (Inl e, s') \<Longrightarrow> s' = s"
  by (auto simp: write_file_def write_text_def node_at_def update_conv'
      dest!: open_w_Inl open_w_Inr split: sum.splits prod.splits option.splits node.splits if_splits)

lemma write_file_Inr:
  "write_file p data s = (Inr u, s') \<Longrightarrow>
     \<exists>q. \<not> endswith_sep p \<and> locate s p = Inr q \<and> q \<noteq> [] \<and>
         (tbl s q = None \<or> (\<exists>c. tbl s q = Some (File c))) \<and>
         cwd s' = cwd s \<and> tbl s' = (tbl s)(q \<mapsto> File data) \<and>
         events s' = events s @ [Ev_open p q, Ev_write q data]"
  by (auto simp: write_file_def write_text_def node_at_def update_conv'
      dest!: open_w_Inr split: sum.splits prod.splits option.splits node.splits if_splits)

lemma locate_mono:
  "cwd s' = cwd s \<Longrightarrow> ext (tbl s) (tbl s') \<Longrightarrow> locate s p = Inr q \<Longrightarrow> locate s' p = Inr q"
  by (auto simp: locate_def resolve_def split: if_splits intro: walk_ext)

lemma write_file_stat:
  assumes "write_file p data s = (Inr u, s')"
  shows "stat s' p = Inr (File data)"
proof -
  from write_file_Inr [OF assms] obtain q where q:
    "locate s p = Inr q" "q \<noteq> []" "tbl s q = None \<or> (\<exists>c. tbl s q = Some (File c))"
    "cwd s' = cwd s" "tbl s' = (tbl s)(q \<mapsto> File data)"
    by blast
  have "ext (tbl s) (tbl s')"
    using q(3,5) by (auto intro: ext_upd_new ext_upd_file)
  then have "locate s' p = Inr q"
    using q(1,4) by (blast intro: locate_mono)
  then show ?thesis
    using q(2,5) by (simp add: stat_def node_at_def)
qed


lemma walk_created:
  "walk n m cur cs fl = Inr q \<Longrightarrow> \<not> fl \<Longrightarrow> m q = None \<Longrightarrow> m' q = Some Dir \<Longrightarrow>
   (\<forall>x. x \<noteq> q \<longrightarrow> m' x = m x) \<Longrightarrow> ex = [] \<or> ex = [''.''] \<Longrightarrow>
   walk n m' cur (cs @ ex) True = Inr q"
proof (induction n m cur cs fl rule: walk.induct)
  case (1 n m cur follow)
  then show ?case by auto
next
  case (2 n m cur c cs follow)
  show ?case
  proof (cases "c = ''.'' \<or> c = ''..''")
    case True
    then show ?thesis using 2 by auto
  next
    case False
    show ?thesis
    proof (cases "m (cur @ [c])")
      case None
      then show ?thesis
        using False "2.prems" by (auto split: if_splits)
    next
      case (Some nd)
      then have ne: "cur @ [c] \<noteq> q"
        using "2.prems"(3) by auto
      then have m': "m' (cur @ [c]) = Some nd"
        using Some "2.prems"(5) by simp
      show ?thesis
      proof (cases nd)
        case (File x)
        then show ?thesis
          using False Some "2.prems" by (auto split: if_splits)
      next
        case Dir
        then show ?thesis
          using False Some m' 2 by auto
      next
        case (Link t)
        show ?thesis
        proof (cases "cs = []")
          case True
          then show ?thesis
            using False Some Link "2.prems" by auto
        next
          case nf: False
          show ?thesis
          proof (cases n)
            case 0
            then show ?thesis
              using False Some Link nf "2.prems" by (auto split: if_splits)
          next
            case (Suc k)
            have t: "t \<noteq> []" and
              w: "walk k m (if startswith_sep t then [] else cur) (lookup_comps t @ cs) follow = Inr q"
              using False Some Link nf Suc "2.prems" by (auto split: if_splits)
            have "walk k m' (if startswith_sep t then [] else cur)
                ((lookup_comps t @ cs) @ ex) True = Inr q"
              using "2.IH"(4) [of nd t k] False Some Link Suc t w nf "2.prems"(2-6) by simp
            then show ?thesis
              using False m' Link Suc t nf by simp
          qed
        qed
      qed
    qed
  qed
qed

lemma mkdir_locate:
  assumes "mkdir p s = (Inr u, s')"
  shows "\<exists>q. q \<noteq> [] \<and> tbl s q = None \<and> tbl s' = (tbl s)(q \<mapsto> Dir) \<and> cwd s' = cwd s \<and>
     events s' = events s @ [Ev_mkdir p q] \<and> locate s' p = Inr q"
proof -
  from mkdir_Inr [OF assms] obtain q where q: "q \<noteq> []" "tbl s q = None"
    "resolve s False p (comps p) = Inr q"
    "s' = s\<lparr>entries := AList.update q Dir (entries s), events := events s @ [Ev_mkdir p q]\<rparr>"
    by blast
  have pn: "p \<noteq> []" and w: "walk MAXSYMLINKS (tbl s) (if startswith_sep p then [] else cwd s) (comps p) False = Inr q"
    using q(3) by (auto simp: resolve_def split: if_splits)
  have t: "tbl s' = (tbl s)(q \<mapsto> Dir)" and c: "cwd s' = cwd s"
    using q(4) by (simp_all add: update_conv')
  have ex: "(if endswith_sep p then [''.''] else []) = [] \<or> (if endswith_sep p then [''.''] else []) = [''.'']"
    by simp
  have "locate s' p = Inr q"
    using walk_created [OF w _ q(2), of "(tbl s)(q \<mapsto> Dir)", OF _ _ _ ex] pn
    by (cases "endswith_sep p"; cases "startswith_sep p")
      (simp_all add: locate_def resolve_def lookup_comps_def t c)
  then show ?thesis
    using q t c by auto
qed

lemma grows_refl: "grows P s s"
  by (simp add: grows_def)

lemma grows_weaken: "grows P s s' \<Longrightarrow> (\<And>p. P p \<Longrightarrow> Q p) \<Longrightarrow> grows Q s s'"
  unfolding grows_def by (elim conjE exE) (intro conjI exI; blast)

lemma grows_ext: "grows P s s' \<Longrightarrow> ext (tbl s) (tbl s')"
  unfolding grows_def ext_def kind_le_def
  by (auto split: option.splits node.splits)

lemma grows_trans:
  assumes "grows P s s'" and "grows P s' s''"
  shows "grows P s s''"
proof -
  from assms(1) obtain n1 where 1: "cwd s' = cwd s"
    "\<And>q nd. tbl s q = Some nd \<Longrightarrow> tbl s' q = Some nd"
    "events s' = events s @ n1" "\<And>e. e \<in> set n1 \<Longrightarrow> \<exists>p q. e = Ev_mkdir p q \<and> P p"
    "\<And>q. tbl s q = None \<Longrightarrow>
       tbl s' q = None \<or> (tbl s' q = Some Dir \<and> (\<exists>p. Ev_mkdir p q \<in> set n1 \<and> locate s' p = Inr q))"
    unfolding grows_def by blast
  from assms(2) obtain n2 where 2: "cwd s'' = cwd s'"
    "\<And>q nd. tbl s' q = Some nd \<Longrightarrow> tbl s'' q = Some nd"
    "events s'' = events s' @ n2" "\<And>e. e \<in> set n2 \<Longrightarrow> \<exists>p q. e = Ev_mkdir p q \<and> P p"
    "\<And>q. tbl s' q = None \<Longrightarrow>
       tbl s'' q = None \<or> (tbl s'' q = Some Dir \<and> (\<exists>p. Ev_mkdir p q \<in> set n2 \<and> locate s'' p = Inr q))"
    unfolding grows_def by blast
  have mono: "locate s'' p = Inr q" if "locate s' p = Inr q" for p q
    using that 2(1) grows_ext [OF assms(2)] by (blast intro: locate_mono)
  have a: "events s'' = events s @ (n1 @ n2)"
    using 1(3) 2(3) by simp
  have b: "\<forall>e \<in> set (n1 @ n2). \<exists>p q. e = Ev_mkdir p q \<and> P p"
    using 1(4) 2(4) by auto
  have c: "\<forall>q. tbl s q = None \<longrightarrow>
      tbl s'' q = None \<or>
      (tbl s'' q = Some Dir \<and> (\<exists>p. Ev_mkdir p q \<in> set (n1 @ n2) \<and> locate s'' p = Inr q))"
  proof (intro allI impI)
    fix q assume n: "tbl s q = None"
    show "tbl s'' q = None \<or>
      (tbl s'' q = Some Dir \<and> (\<exists>p. Ev_mkdir p q \<in> set (n1 @ n2) \<and> locate s'' p = Inr q))"
    proof (cases "tbl s' q")
      case None
      then show ?thesis using 2(5) [of q] by auto
    next
      case (Some nd)
      then obtain p where "tbl s' q = Some Dir" "Ev_mkdir p q \<in> set n1" "locate s' p = Inr q"
        using 1(5) [OF n] by auto
      then show ?thesis
        using 2(2) [of q Dir] mono [of p q] by auto
    qed
  qed
  have d: "cwd s'' = cwd s"
    using 1(1) 2(1) by simp
  have e: "\<forall>q nd. tbl s q = Some nd \<longrightarrow> tbl s'' q = Some nd"
    using 1(2) 2(2) by simp
  show ?thesis
    unfolding grows_def
    by (rule conjI [OF d], rule conjI [OF e], rule exI [of _ "n1 @ n2"], intro conjI a b c)
qed

lemma grows_mkdir: "mkdir p s = (r, s') \<Longrightarrow> grows (\<lambda>x. x = p) s s'"
proof (cases r)
  case (Inl e)
  assume "mkdir p s = (r, s')"
  then show ?thesis using Inl by (auto dest: mkdir_Inl simp: grows_refl)
next
  case (Inr u)
  assume "mkdir p s = (r, s')"
  then obtain q where q: "q \<noteq> []" "tbl s q = None" "tbl s' = (tbl s)(q \<mapsto> Dir)" "cwd s' = cwd s"
    "events s' = events s @ [Ev_mkdir p q]" "locate s' p = Inr q"
    using Inr mkdir_locate by blast
  have "\<forall>q'. tbl s q' = None \<longrightarrow>
      tbl s' q' = None \<or>
      (tbl s' q' = Some Dir \<and> (\<exists>p'. Ev_mkdir p' q' \<in> set [Ev_mkdir p q] \<and> locate s' p' = Inr q'))"
    using q(3,6) by auto
  moreover have "\<forall>q' nd. tbl s q' = Some nd \<longrightarrow> tbl s' q' = Some nd"
    using q(2,3) by auto
  ultimately show ?thesis
    unfolding grows_def using q(4,5) by (intro conjI exI [of _ "[Ev_mkdir p q]"]) simp_all
qed

lemma grows_mkdir_exist_ok: "mkdir_exist_ok p s = (r, s') \<Longrightarrow> grows (\<lambda>x. x = p) s s'"
  by (auto simp: mkdir_exist_ok_def split: prod.splits sum.splits if_splits dest: grows_mkdir)

lemma split_sep_nonempty: "split_sep p \<noteq> []"
  by (induction p) (auto split: list.splits)

lemma split_sep_append: "split_sep (a @ sep # b) = split_sep a @ split_sep b"
proof (induction a)
  case Nil
  then show ?case by simp
next
  case (Cons c a)
  then show ?case
    using split_sep_nonempty [of a] by (auto split: list.splits)
qed

lemma split_sep_name: "sep \<notin> set n \<Longrightarrow> split_sep n = [n]"
  by (induction n) auto

lemma split_sep_no_sep: "x \<in> set (split_sep p) \<Longrightarrow> sep \<notin> set x"
proof (induction p arbitrary: x)
  case Nil
  then show ?case by simp
next
  case (Cons c p)
  then show ?case
    using split_sep_nonempty [of p] by (auto split: list.splits if_splits)
qed

lemma comps_append: "comps (a @ sep # b) = comps a @ comps b"
  by (simp add: comps_def split_sep_append)

lemma comps_name: "n \<noteq> [] \<Longrightarrow> sep \<notin> set n \<Longrightarrow> comps n = [n]"
  by (simp add: comps_def split_sep_name)

lemma comps_empty: "comps [] = []"
  by (simp add: comps_def)

lemma comps_elem: "x \<in> set (comps p) \<Longrightarrow> x \<noteq> [] \<and> sep \<notin> set x"
  by (auto simp: comps_def dest: split_sep_no_sep)

lemma lookup_comps_elem: "x \<in> set (lookup_comps p) \<Longrightarrow> x \<noteq> [] \<and> sep \<notin> set x"
  by (auto simp: lookup_comps_def dest: comps_elem split: if_splits)

lemma prefix_rstrip_sep: "prefix (rstrip_sep p) p"
proof -
  have "rev p = takeWhile (\<lambda>c. c = sep) (rev p) @ dropWhile (\<lambda>c. c = sep) (rev p)"
    by simp
  then have "p = rev (dropWhile (\<lambda>c. c = sep) (rev p)) @ rev (takeWhile (\<lambda>c. c = sep) (rev p))"
    by (metis rev_append rev_rev_ident)
  then show ?thesis
    unfolding rstrip_sep_def by (metis prefixI)
qed

lemma prefix_path_split: "prefix (fst (path_split p)) p"
proof -
  have "prefix (rstrip_sep (take (rfind_sep p) p)) p"
    by (meson prefix_rstrip_sep prefix_order.trans take_is_prefix)
  then show ?thesis
    by (simp add: path_split_def Let_def take_is_prefix)
qed

lemma prefix_split2: "prefix (fst (split2 p)) p"
  using prefix_path_split [of p] prefix_path_split [of "fst (path_split p)"]
  by (auto simp: split2_def split: prod.splits)

lemma on_path_refl: "on_path p p"
  by (simp add: on_path_def)

lemma on_path_trans: "on_path p h \<Longrightarrow> on_path h name \<Longrightarrow> on_path p name"
  unfolding on_path_def by (meson prefix_order.trans)

lemma comps_replicate_sep: "comps (replicate n sep) = []"
proof (induction n)
  case 0
  then show ?case by (simp add: comps_empty)
next
  case (Suc n)
  have "comps ([] @ sep # replicate n sep) = comps [] @ comps (replicate n sep)"
    by (rule comps_append)
  then show ?case
    using Suc by (simp add: comps_empty)
qed

lemma comps_append_seps: "comps (p @ replicate n sep) = comps p"
proof (cases n)
  case 0
  then show ?thesis by simp
next
  case (Suc k)
  have "comps (p @ sep # replicate k sep) = comps p @ comps (replicate k sep)"
    by (rule comps_append)
  then show ?thesis
    using Suc by (simp add: comps_replicate_sep)
qed

lemma rstrip_sep_decomp: "\<exists>n. p = rstrip_sep p @ replicate n sep"
proof -
  have "rev p = takeWhile (\<lambda>c. c = sep) (rev p) @ dropWhile (\<lambda>c. c = sep) (rev p)"
    by simp
  then have "p = rev (dropWhile (\<lambda>c. c = sep) (rev p)) @ rev (takeWhile (\<lambda>c. c = sep) (rev p))"
    by (metis rev_append rev_rev_ident)
  moreover have "takeWhile (\<lambda>c. c = sep) (rev p) = replicate (length (takeWhile (\<lambda>c. c = sep) (rev p))) sep"
    by (rule replicate_length_same [symmetric]) (auto dest: set_takeWhileD)
  ultimately show ?thesis
    unfolding rstrip_sep_def by (metis rev_replicate)
qed

lemma comps_rstrip_sep: "comps (rstrip_sep p) = comps p"
  using rstrip_sep_decomp [of p] comps_append_seps by metis

lemma rfind_sep_decomp:
  "p = take (rfind_sep p) p @ drop (rfind_sep p) p \<and> sep \<notin> set (drop (rfind_sep p) p) \<and>
   (take (rfind_sep p) p = [] \<or> last (take (rfind_sep p) p) = sep)"
proof -
  let ?d = "dropWhile (\<lambda>c. c \<noteq> sep) (rev p)" and ?t = "takeWhile (\<lambda>c. c \<noteq> sep) (rev p)"
  have "rev p = ?t @ ?d"
    by simp
  then have p: "p = rev ?d @ rev ?t"
    by (metis rev_append rev_rev_ident)
  have l: "rfind_sep p = length (rev ?d)"
    by (simp add: rfind_sep_def)
  have tk: "take (rfind_sep p) p = rev ?d"
    unfolding l by (subst p) simp
  have dr: "drop (rfind_sep p) p = rev ?t"
    unfolding l by (subst p) simp
  have "sep \<notin> set ?t"
    by (auto dest: set_takeWhileD)
  moreover have "?d = [] \<or> hd ?d = sep"
    using hd_dropWhile [of "\<lambda>c. c \<noteq> sep" "rev p"] by auto
  then have "rev ?d = [] \<or> last (rev ?d) = sep"
    by (auto simp: last_rev)
  ultimately have "sep \<notin> set (drop (rfind_sep p) p) \<and>
      (take (rfind_sep p) p = [] \<or> last (take (rfind_sep p) p) = sep)"
    unfolding tk dr by simp
  then show ?thesis
    by simp
qed

lemma path_split_comps:
  "comps p = comps (fst (path_split p)) @ (if snd (path_split p) = [] then [] else [snd (path_split p)])"
proof -
  define h where "h = take (rfind_sep p) p"
  define t where "t = drop (rfind_sep p) p"
  have p: "p = h @ t" and t: "sep \<notin> set t" and h: "h = [] \<or> last h = sep"
    using rfind_sep_decomp [of p] by (simp_all add: h_def t_def)
  have ct: "comps t = (if t = [] then [] else [t])"
    using t by (simp add: comps_name comps_empty)
  have f: "comps (fst (path_split p)) = comps h"
    by (simp add: path_split_def Let_def h_def [symmetric] comps_rstrip_sep)
  have s: "snd (path_split p) = t"
    by (simp add: path_split_def Let_def t_def)
  have "comps p = comps h @ comps t"
  proof (cases "h = []")
    case True
    then show ?thesis using p by (simp add: comps_empty)
  next
    case False
    then obtain hh where hh: "h = hh @ [sep]"
      using h by (metis append_butlast_last_id)
    have "comps (hh @ sep # t) = comps hh @ comps t"
      by (rule comps_append)
    moreover have "comps (hh @ sep # []) = comps hh @ comps []"
      by (rule comps_append)
    ultimately show ?thesis
      using p hh by (simp add: comps_empty)
  qed
  then show ?thesis
    using f s ct by simp
qed

lemma on_path_path_split: "on_path (fst (path_split p)) p"
  using path_split_comps [of p] prefix_path_split [of p] by (simp add: on_path_def)

lemma on_path_dirname: "on_path (dirname p) p"
  using on_path_path_split [of p] by (simp add: dirname_def path_split_def Let_def)

lemma on_path_split2: "on_path (fst (split2 p)) p"
  using on_path_path_split [of p] on_path_path_split [of "fst (path_split p)"]
  by (auto simp: split2_def split: prod.splits intro: on_path_trans)

lemma split2_comps:
  "snd (split2 p) \<noteq> [] \<Longrightarrow> comps p = comps (fst (split2 p)) @ [snd (split2 p)]"
  using path_split_comps [of p] path_split_comps [of "fst (path_split p)"]
  by (auto simp: split2_def split: prod.splits if_splits)

lemma makedirs_grows: "makedirs name s = (r, s') \<Longrightarrow> grows (\<lambda>p. on_path p name) s s'"
proof (induction name s arbitrary: r s' rule: makedirs.induct)
  case (1 name s)
  have own: "grows (\<lambda>p. on_path p name) t t'" if "mkdir_exist_ok name t = (x, t')" for t t' x
    using grows_mkdir_exist_ok [OF that] by (rule grows_weaken) (simp add: on_path_refl)
  show ?case
  proof (cases "fst (split2 name) \<noteq> [] \<and> snd (split2 name) \<noteq> [] \<and> \<not> exists_path s (fst (split2 name))")
    case True
    obtain r1 s1 where m1: "makedirs (fst (split2 name)) s = (r1, s1)"
      by fastforce
    have "grows (\<lambda>p. on_path p (fst (split2 name))) s s1"
      using "1.IH" True m1 by blast
    then have g1: "grows (\<lambda>p. on_path p name) s s1"
      by (rule grows_weaken) (meson on_path_trans on_path_split2)
    have "s' = s1 \<or> mkdir_exist_ok name s1 = (r, s')"
      using "1.prems" True m1
      by (subst (asm) makedirs.simps) (auto split: sum.splits if_splits)
    then show ?thesis
      using g1 own grows_trans by blast
  next
    case False
    then have "mkdir_exist_ok name s = (r, s')"
      using "1.prems" by (subst (asm) makedirs.simps) auto
    then show ?thesis
      by (rule own)
  qed
qed

lemma ensure_dirs_grows:
  "ensure_dirs a s = (r, s1) \<Longrightarrow>
   grows (\<lambda>p. on_path p (dirname (out_file a)) \<or>
               (trigger_file a \<noteq> [] \<and> on_path p (dirname (trigger_file a)))) s s1"
proof -
  assume e: "ensure_dirs a s = (r, s1)"
  obtain r0 s0 where m0: "makedirs (dirname (out_file a)) s = (r0, s0)"
    by fastforce
  have g0: "grows (\<lambda>p. on_path p (dirname (out_file a)) \<or>
               (trigger_file a \<noteq> [] \<and> on_path p (dirname (trigger_file a)))) s s0"
    using makedirs_grows [OF m0] by (rule grows_weaken) simp
  show ?thesis
  proof (cases "\<exists>u. r0 = Inr u \<and> trigger_file a \<noteq> []")
    case True
    then have m1: "makedirs (dirname (trigger_file a)) s0 = (r, s1)"
      using e m0 by (auto simp: ensure_dirs_def)
    have "grows (\<lambda>p. on_path p (dirname (out_file a)) \<or>
               (trigger_file a \<noteq> [] \<and> on_path p (dirname (trigger_file a)))) s0 s1"
      using makedirs_grows [OF m1] by (rule grows_weaken) (use True in simp)
    with g0 show ?thesis
      by (rule grows_trans)
  next
    case False
    then have "s1 = s0"
      using e m0 by (auto simp: ensure_dirs_def split: sum.splits if_splits)
    with g0 show ?thesis
      by simp
  qed
qed

lemma children_set: "set (children s d) = {n. tbl s (d @ [n]) \<noteq> None}"
proof -
  have "n \<in> set (children s d) \<longleftrightarrow> d @ [n] \<in> fst ` set (entries s)" for n
  proof
    assume "n \<in> set (children s d)"
    then obtain k nd where "(k, nd) \<in> set (entries s)" "k \<noteq> []" "butlast k = d" "last k = n"
      by (auto simp: children_def)
    then show "d @ [n] \<in> fst ` set (entries s)"
      by (metis append_butlast_last_id fst_conv image_eqI)
  next
    assume "d @ [n] \<in> fst ` set (entries s)"
    then obtain nd where "(d @ [n], nd) \<in> set (entries s)"
      by auto
    then show "n \<in> set (children s d)"
      by (force simp: children_def)
  qed
  then show ?thesis
    by (auto simp: map_of_eq_None_iff)
qed

lemma listdir_isdir: "isdir s b \<Longrightarrow> listdir s b = Inr (children s (projr (locate s b)))"
  unfolding isdir_def stat_def listdir_def
  by (cases "locate s b") (auto split: option.splits node.splits)

lemma list_subdirs_total:
  "list_subdirs s b = Inr (if isdir s b then collect s b (children s (projr (locate s b))) [] else [])"
  by (simp add: list_subdirs_def listdir_isdir)

lemma makedirs_empty: "makedirs [] s = (Inl ENOENT, s)"
  by (subst makedirs.simps)
    (simp add: split2_def path_split_def rfind_sep_def mkdir_exist_ok_def mkdir_def resolve_def
      isdir_def stat_def locate_def)

subsection \<open>C8: an output path without a directory component\<close>

text \<open>
  Claim C8. When \<^verbatim>\<open>os.path.dirname(out_file)\<close> is the empty string (a bare file name),
  \<^verbatim>\<open>os.makedirs('')\<close> raises (\<^verbatim>\<open>FileNotFoundError\<close>, errno \<open>ENOENT\<close>) and the run ends
  there: the file system is as it was, no directory was listed and neither file was
  opened.
\<close>

theorem C8_no_directory_component:
  "dirname (out_file a) = [] \<Longrightarrow> main a s = (Inl ENOENT, s)"
  by (simp add: main_def ensure_dirs_def makedirs_empty)

theorem C8_witness:
  "dirname (out_file \<lparr>directory = ''/d'', out_file = ''list.txt'', trigger_file = ''/o/t''\<rparr>) = [] \<and>
   main \<lparr>directory = ''/d'', out_file = ''list.txt'', trigger_file = ''/o/t''\<rparr>
     \<lparr>entries = [([''d''], Dir), ([''d'', ''a''], Dir)], cwd = [''d''], events = []\<rparr> =
   (Inl ENOENT, \<lparr>entries = [([''d''], Dir), ([''d'', ''a''], Dir)], cwd = [''d''], events = []\<rparr>)"
proof -
  have d: "dirname (out_file \<lparr>directory = ''/d'', out_file = ''list.txt'', trigger_file = ''/o/t''\<rparr>) = []"
    by code_simp
  show ?thesis
    by (rule conjI [OF d C8_no_directory_component [OF d]])
qed

lemma write_file_wrote: "write_file p data s = (r, s') \<Longrightarrow> wrote p s s'"
proof (cases r)
  case (Inl e)
  assume "write_file p data s = (r, s')"
  then show ?thesis using Inl by (auto simp: wrote_def dest: write_file_Inl)
next
  case (Inr u)
  assume "write_file p data s = (r, s')"
  then show ?thesis using Inr write_file_Inr [of p data s u s'] unfolding wrote_def by blast
qed

lemma wrote_ext: "wrote p s s' \<Longrightarrow> ext (tbl s) (tbl s') \<and> cwd s' = cwd s"
  unfolding wrote_def by (auto intro: ext_refl ext_upd_new ext_upd_file)

lemma main_Inr:
  "main a s = (Inr u, s') \<Longrightarrow>
   \<exists>s1 s2 subdirs. ensure_dirs a s = (Inr (), s1) \<and> list_subdirs s1 (directory a) = Inr subdirs \<and>
      write_file (out_file a) (listing subdirs) s1 = (Inr (), s2) \<and>
      create_trigger a s2 = (Inr (), s')"
  by (auto simp: main_def split: prod.splits sum.splits)

lemma stat_locate: "stat s p = Inr nd \<Longrightarrow> \<exists>q. locate s p = Inr q \<and> node_at s q = Some nd"
  by (auto simp: stat_def split: sum.splits option.splits)

lemma write_file_other:
  assumes w: "write_file p data s = (Inr u, s')"
    and st: "stat s p2 = Inr nd"
    and ne: "locate s' p2 \<noteq> locate s' p"
  shows "stat s' p2 = Inr nd"
proof -
  from write_file_Inr [OF w] obtain q where q:
    "locate s p = Inr q" "q \<noteq> []" "tbl s q = None \<or> (\<exists>c. tbl s q = Some (File c))"
    "cwd s' = cwd s" "tbl s' = (tbl s)(q \<mapsto> File data)"
    by blast
  have e: "ext (tbl s) (tbl s')"
    using q(3,5) by (auto intro: ext_upd_new ext_upd_file)
  from stat_locate [OF st] obtain q2 where q2: "locate s p2 = Inr q2" "node_at s q2 = Some nd"
    by blast
  have l1: "locate s' p = Inr q" and l2: "locate s' p2 = Inr q2"
    using q(1,4) q2(1) e by (blast intro: locate_mono)+
  then have "q2 \<noteq> q"
    using ne by auto
  then have "node_at s' q2 = Some nd"
    using q2(2) q(5) by (auto simp: node_at_def split: if_splits)
  then show ?thesis
    using l2 by (simp add: stat_def)
qed

lemma write_file_empty_keeps_empty:
  assumes w: "write_file p [] s = (Inr u, s')"
    and st: "stat s p2 = Inr (File [])"
  shows "stat s' p2 = Inr (File [])"
proof -
  from write_file_Inr [OF w] obtain q where q:
    "locate s p = Inr q" "q \<noteq> []" "tbl s q = None \<or> (\<exists>c. tbl s q = Some (File c))"
    "cwd s' = cwd s" "tbl s' = (tbl s)(q \<mapsto> File [])"
    by blast
  have e: "ext (tbl s) (tbl s')"
    using q(3,5) by (auto intro: ext_upd_new ext_upd_file)
  from stat_locate [OF st] obtain q2 where q2: "locate s p2 = Inr q2" "node_at s q2 = Some (File [])"
    by blast
  have l2: "locate s' p2 = Inr q2"
    using q(4) q2(1) e by (blast intro: locate_mono)
  have "node_at s' q2 = Some (File [])"
    using q2(2) q(2,5) by (auto simp: node_at_def)
  then show ?thesis
    using l2 by (simp add: stat_def)
qed

lemma length_str_join:
  "length (str_join s xs) = sum_list (map length xs) + length s * (length xs - 1)"
  by (induction s xs rule: str_join.induct) simp_all

lemma sum_list_length_sort: "sum_list (map length (sort xs)) = sum_list (map length (xs :: string list))"
proof -
  have "mset (map length (sort xs)) = mset (map length xs)"
    by simp
  then show ?thesis
    by (metis sum_mset_sum_list)
qed

subsection \<open>C1: the contents of the output file\<close>

text \<open>
  Claim C1, as amended. After a successful run, provided the trigger path is empty or
  names another file than the output path, the output file holds exactly the retained
  paths, sorted in ascending byte-wise lexicographic order of the whole path string and
  joined by single newlines: nothing follows the last path (the length is the sum of the
  lengths plus one byte between neighbours), and the file is empty when nothing was
  retained. The retained paths are those that \<open>list_subdirs\<close> returns in the state
  that \<open>ensure_dirs\<close> left.

  As stated, for every run, the claim fails: when both paths name the same file the
  trigger step truncates the listing, as the run on \<open>same_path_args\<close> below shows.
\<close>

theorem C1_output_is_sorted_listing:
  assumes run: "main a s = (Inr (), s')"
    and apart: "trigger_file a = [] \<or> locate s' (trigger_file a) \<noteq> locate s' (out_file a)"
  shows "\<exists>subdirs content.
      list_subdirs (snd (ensure_dirs a s)) (directory a) = Inr subdirs \<and>
      stat s' (out_file a) = Inr (File content) \<and>
      content = str_join newline (sort subdirs) \<and>
      sorted (sort subdirs) \<and> mset (sort subdirs) = mset subdirs \<and>
      length content = sum_list (map length subdirs) + (length subdirs - 1) \<and>
      (if subdirs = [] then content = [] else True)"
proof -
  from main_Inr [OF run] obtain s1 s2 subdirs where m:
    "ensure_dirs a s = (Inr (), s1)" "list_subdirs s1 (directory a) = Inr subdirs"
    "write_file (out_file a) (listing subdirs) s1 = (Inr (), s2)"
    "create_trigger a s2 = (Inr (), s')"
    by blast
  have o2: "stat s2 (out_file a) = Inr (File (listing subdirs))"
    using m(3) by (rule write_file_stat)
  have o': "stat s' (out_file a) = Inr (File (listing subdirs))"
  proof (cases "trigger_file a = []")
    case True
    then show ?thesis using m(4) o2 by (simp add: create_trigger_def)
  next
    case False
    then have w: "write_file (trigger_file a) [] s2 = (Inr (), s')"
      using m(4) by (simp add: create_trigger_def)
    from False apart have "locate s' (out_file a) \<noteq> locate s' (trigger_file a)"
      by auto
    with w o2 show ?thesis
      by (rule write_file_other)
  qed
  have len: "length (listing subdirs) = sum_list (map length subdirs) + (length subdirs - 1)"
    by (simp add: listing_def length_str_join sum_list_length_sort newline_def)
  show ?thesis
    using m(1,2) o' len by (auto simp: listing_def)
qed

theorem C1_witness:
  "fst (main demo_args demo_fs) = Inr () \<and>
   locate (snd (main demo_args demo_fs)) (trigger_file demo_args) \<noteq>
     locate (snd (main demo_args demo_fs)) (out_file demo_args) \<and>
   stat (snd (main demo_args demo_fs)) (out_file demo_args) =
     Inr (File (''/d/B'' @ newline @ ''/d/a'' @ newline @ ''/d/b'' @ newline @ ''/d/ld''))"
proof -
  have run: "main demo_args demo_fs = (Inr (), snd (main demo_args demo_fs))"
    by code_simp
  have apart: "locate (snd (main demo_args demo_fs)) (trigger_file demo_args) \<noteq>
      locate (snd (main demo_args demo_fs)) (out_file demo_args)"
    by code_simp
  have sub: "list_subdirs (snd (ensure_dirs demo_args demo_fs)) (directory demo_args) =
      Inr [''/d/b'', ''/d/a'', ''/d/B'', ''/d/ld'']"
    by code_simp
  have srt: "str_join newline (sort [''/d/b'', ''/d/a'', ''/d/B'', ''/d/ld'']) =
      ''/d/B'' @ newline @ ''/d/a'' @ newline @ ''/d/b'' @ newline @ ''/d/ld''"
    by code_simp
  from C1_output_is_sorted_listing [OF run disjI2 [OF apart]] sub srt
  have "stat (snd (main demo_args demo_fs)) (out_file demo_args) =
     Inr (File (''/d/B'' @ newline @ ''/d/a'' @ newline @ ''/d/b'' @ newline @ ''/d/ld''))"
    by auto
  with run apart show ?thesis
    by (metis fst_conv)
qed

theorem C1_counterexample:
  "fst (main same_path_args demo_fs) = Inr () \<and>
   list_subdirs (snd (ensure_dirs same_path_args demo_fs)) (directory same_path_args) =
     Inr [''/d/b'', ''/d/a'', ''/d/B'', ''/d/ld''] \<and>
   stat (snd (main same_path_args demo_fs)) (out_file same_path_args) = Inr (File [])"
  by code_simp

subsection \<open>C5: the trigger file\<close>

text \<open>
  Claim C5. For a non-empty trigger path, after every successful run the trigger file
  exists, is a regular file and holds zero bytes, whatever was at that path before and
  whatever was listed. For an empty trigger path the run consists of the directory
  creation for the output file, the listing and the write of the output file only: no
  directory is created and no file opened for a trigger.
\<close>

theorem C5_trigger_file_empty:
  "(trigger_file a \<noteq> [] \<longrightarrow>
      (\<forall>s'. main a s = (Inr (), s') \<longrightarrow> stat s' (trigger_file a) = Inr (File []))) \<and>
   (trigger_file a = [] \<longrightarrow>
      main a s =
        (case makedirs (dirname (out_file a)) s of
           (Inl e, s1) \<Rightarrow> (Inl e, s1)
         | (Inr _, s1) \<Rightarrow>
             (case list_subdirs s1 (directory a) of
                Inl e \<Rightarrow> (Inl e, s1)
              | Inr subdirs \<Rightarrow> write_file (out_file a) (listing subdirs) s1)))"
proof (intro conjI impI allI)
  fix s'
  assume t: "trigger_file a \<noteq> []" and run: "main a s = (Inr (), s')"
  from main_Inr [OF run] obtain s2 where "create_trigger a s2 = (Inr (), s')"
    by blast
  with t have "write_file (trigger_file a) [] s2 = (Inr (), s')"
    by (simp add: create_trigger_def)
  then show "stat s' (trigger_file a) = Inr (File [])"
    by (rule write_file_stat)
next
  assume "trigger_file a = []"
  then show "main a s =
        (case makedirs (dirname (out_file a)) s of
           (Inl e, s1) \<Rightarrow> (Inl e, s1)
         | (Inr _, s1) \<Rightarrow>
             (case list_subdirs s1 (directory a) of
                Inl e \<Rightarrow> (Inl e, s1)
              | Inr subdirs \<Rightarrow> write_file (out_file a) (listing subdirs) s1))"
    by (auto simp: main_def ensure_dirs_def create_trigger_def split: prod.splits sum.splits)
qed

theorem C5_witness:
  "trigger_file demo_args \<noteq> [] \<and> fst (main demo_args demo_fs) = Inr () \<and>
   stat (snd (main demo_args demo_fs)) (trigger_file demo_args) = Inr (File []) \<and>
   trigger_file no_trigger_args = [] \<and>
   main no_trigger_args demo_fs =
     (case makedirs (dirname (out_file no_trigger_args)) demo_fs of
        (Inl e, s1) \<Rightarrow> (Inl e, s1)
      | (Inr _, s1) \<Rightarrow>
          (case list_subdirs s1 (directory no_trigger_args) of
             Inl e \<Rightarrow> (Inl e, s1)
           | Inr subdirs \<Rightarrow> write_file (out_file no_trigger_args) (listing subdirs) s1)) \<and>
   fst (main no_trigger_args demo_fs) = Inr ()"
proof -
  have t: "trigger_file demo_args \<noteq> []"
    by (simp add: demo_args_def)
  have n: "trigger_file no_trigger_args = []"
    by (simp add: no_trigger_args_def)
  have run: "main demo_args demo_fs = (Inr (), snd (main demo_args demo_fs))"
    by code_simp
  have run2: "fst (main no_trigger_args demo_fs) = Inr ()"
    by code_simp
  show ?thesis
    using C5_trigger_file_empty [of demo_args demo_fs] C5_trigger_file_empty [of no_trigger_args demo_fs]
      t n run run2
    by (metis fst_conv)
qed

subsection \<open>C3: a target that is not a directory\<close>

text \<open>
  Claim C3, as amended. When the target path is not a directory at the moment it is
  scanned, that is, in the state left by the creation of the parent directories, the run
  is the run of the remaining steps with an empty listing: it fails only where creating
  the directories or writing a file fails, and when it succeeds the output file holds
  zero bytes and the trigger file (when a path was given) exists and is empty.

  As stated, for a target that does not exist before the run, the claim fails: creating
  the parent directory of an output file below the target creates the target, which is
  then listed, as the run on \<open>nested_out_args\<close> below shows.
\<close>

theorem C3_missing_directory_is_empty_listing:
  assumes nd: "\<not> isdir (snd (ensure_dirs a s)) (directory a)"
  shows "main a s =
      (case ensure_dirs a s of
         (Inl e, s1) \<Rightarrow> (Inl e, s1)
       | (Inr _, s1) \<Rightarrow>
           (case write_file (out_file a) [] s1 of
              (Inl e, s2) \<Rightarrow> (Inl e, s2)
            | (Inr _, s2) \<Rightarrow> create_trigger a s2)) \<and>
    (\<forall>s'. main a s = (Inr (), s') \<longrightarrow>
       stat s' (out_file a) = Inr (File []) \<and>
       (trigger_file a \<noteq> [] \<longrightarrow> stat s' (trigger_file a) = Inr (File [])))"
proof (intro conjI allI impI)
  have l: "list_subdirs s1 (directory a) = Inr []" if "ensure_dirs a s = (r, s1)" for r s1
    using nd that by (simp add: list_subdirs_def)
  have le: "listing [] = []"
    by (simp add: listing_def)
  show eq: "main a s =
      (case ensure_dirs a s of
         (Inl e, s1) \<Rightarrow> (Inl e, s1)
       | (Inr _, s1) \<Rightarrow>
           (case write_file (out_file a) [] s1 of
              (Inl e, s2) \<Rightarrow> (Inl e, s2)
            | (Inr _, s2) \<Rightarrow> create_trigger a s2))"
    using l le by (auto simp: main_def split: prod.splits sum.splits)
  fix s'
  assume run: "main a s = (Inr (), s')"
  from main_Inr [OF run] obtain s1 s2 subdirs where m:
    "ensure_dirs a s = (Inr (), s1)" "list_subdirs s1 (directory a) = Inr subdirs"
    "write_file (out_file a) (listing subdirs) s1 = (Inr (), s2)"
    "create_trigger a s2 = (Inr (), s')"
    by blast
  have "subdirs = []"
    using l [OF m(1)] m(2) by simp
  then have o2: "stat s2 (out_file a) = Inr (File [])"
    using write_file_stat [OF m(3)] le by simp
  show "stat s' (out_file a) = Inr (File [])"
  proof (cases "trigger_file a = []")
    case True
    then show ?thesis using m(4) o2 by (simp add: create_trigger_def)
  next
    case False
    then have "write_file (trigger_file a) [] s2 = (Inr (), s')"
      using m(4) by (simp add: create_trigger_def)
    then show ?thesis using o2 by (rule write_file_empty_keeps_empty)
  qed
  assume t: "trigger_file a \<noteq> []"
  then have "write_file (trigger_file a) [] s2 = (Inr (), s')"
    using m(4) by (simp add: create_trigger_def)
  then show "stat s' (trigger_file a) = Inr (File [])"
    by (rule write_file_stat)
qed

theorem C3_witness:
  "\<not> isdir (snd (ensure_dirs missing_dir_args demo_fs)) (directory missing_dir_args) \<and>
   fst (main missing_dir_args demo_fs) = Inr () \<and>
   stat (snd (main missing_dir_args demo_fs)) (out_file missing_dir_args) = Inr (File []) \<and>
   stat (snd (main missing_dir_args demo_fs)) (trigger_file missing_dir_args) = Inr (File [])"
proof -
  have nd: "\<not> isdir (snd (ensure_dirs missing_dir_args demo_fs)) (directory missing_dir_args)"
    by code_simp
  have t: "trigger_file missing_dir_args \<noteq> []"
    by (simp add: missing_dir_args_def)
  have run: "main missing_dir_args demo_fs = (Inr (), snd (main missing_dir_args demo_fs))"
    by code_simp
  show ?thesis
    using C3_missing_directory_is_empty_listing [OF nd] nd t run
    by (metis fst_conv)
qed

theorem C3_counterexample:
  "\<not> exists_path demo_fs (directory nested_out_args) \<and>
   fst (main nested_out_args demo_fs) = Inr () \<and>
   stat (snd (main nested_out_args demo_fs)) (out_file nested_out_args) = Inr (File ''/nodir/a'')"
  by code_simp

lemma grows_events:
  "grows P s s' \<Longrightarrow> \<exists>mk. events s' = events s @ mk \<and> (\<forall>e \<in> set mk. \<exists>p q. e = Ev_mkdir p q \<and> P p)"
  unfolding grows_def by blast

lemma list_subdirs_Inr: "\<exists>subdirs. list_subdirs s b = Inr subdirs"
  by (simp add: list_subdirs_total)

lemma create_trigger_events:
  "create_trigger a s2 = (r, s') \<Longrightarrow>
   events s' = events s2 \<or> (\<exists>qt. events s' = events s2 @ [Ev_open (trigger_file a) qt, Ev_write qt []])"
proof (cases "trigger_file a = []")
  case True
  assume "create_trigger a s2 = (r, s')"
  then show ?thesis using True by (simp add: create_trigger_def)
next
  case False
  assume "create_trigger a s2 = (r, s')"
  then have w: "write_file (trigger_file a) [] s2 = (r, s')"
    using False by (simp add: create_trigger_def)
  show ?thesis
  proof (cases r)
    case (Inl e)
    then show ?thesis using w by (auto dest: write_file_Inl)
  next
    case (Inr u)
    then show ?thesis using w write_file_Inr [of "trigger_file a" "[]" s2 u s'] by blast
  qed
qed

lemma trigger_created:
  assumes run: "main a s = (r, s')"
    and l: "locate s' (trigger_file a) = Inr q"
    and free: "node_at s q = None"
    and f: "node_at s' q = Some (File c)"
    and ap: "locate s' (out_file a) \<noteq> Inr q"
  shows "r = Inr () \<and> c = [] \<and>
    (\<exists>subdirs. list_subdirs (snd (ensure_dirs a s)) (directory a) = Inr subdirs \<and>
       stat s' (out_file a) = Inr (File (listing subdirs)))"
proof -
  have qn: "q \<noteq> []"
    using free by (auto simp: node_at_def split: if_splits)
  have t0: "tbl s q = None" and t': "tbl s' q = Some (File c)"
    using free f qn by (simp_all add: node_at_def)
  have tn: "trigger_file a \<noteq> []"
    using l by (auto simp: locate_def resolve_def)
  obtain r1 s1 where e1: "ensure_dirs a s = (r1, s1)"
    by fastforce
  have t1: "tbl s1 q = None \<or> tbl s1 q = Some Dir"
    using ensure_dirs_grows [OF e1] t0 unfolding grows_def by blast
  obtain subdirs where ls: "list_subdirs s1 (directory a) = Inr subdirs"
    using list_subdirs_Inr by blast
  obtain r2 s2 where w: "write_file (out_file a) (listing subdirs) s1 = (r2, s2)"
    by fastforce
  show ?thesis
  proof (cases "(\<exists>u. r1 = Inr u) \<and> (\<exists>u. r2 = Inr u)")
    case False
    then have "s' = s1"
      using run e1 ls w
      by (cases r1; cases r2) (auto simp: main_def dest: write_file_Inl)
    then show ?thesis
      using t1 t' by auto
  next
    case True
    then have w': "write_file (out_file a) (listing subdirs) s1 = (Inr (), s2)"
      using w by auto
    from write_file_Inr [OF w'] obtain qo where qo:
      "locate s1 (out_file a) = Inr qo" "cwd s2 = cwd s1"
      "tbl s2 = (tbl s1)(qo \<mapsto> File (listing subdirs))"
      by blast
    have e12: "ext (tbl s1) (tbl s2)"
      using wrote_ext [OF write_file_wrote [OF w']] by simp
    have o2: "stat s2 (out_file a) = Inr (File (listing subdirs))"
      using w' by (rule write_file_stat)
    have c: "create_trigger a s2 = (r, s')"
      using run e1 ls w True by (auto simp: main_def)
    then have wt: "write_file (trigger_file a) [] s2 = (r, s')"
      using tn by (simp add: create_trigger_def)
    have e23: "ext (tbl s2) (tbl s')" "cwd s' = cwd s2"
      using wrote_ext [OF write_file_wrote [OF wt]] by simp_all
    have lo: "locate s' (out_file a) = Inr qo"
      using qo(1,2) e12 e23 by (blast intro: locate_mono)
    then have ne: "qo \<noteq> q"
      using ap by auto
    then have t2: "tbl s2 q = None \<or> tbl s2 q = Some Dir"
      using t1 qo(3) by simp
    show ?thesis
    proof (cases r)
      case (Inl e)
      then have "s' = s2"
        using wt by (auto dest: write_file_Inl)
      then show ?thesis
        using t2 t' by auto
    next
      case (Inr u)
      then have wt': "write_file (trigger_file a) [] s2 = (Inr (), s')"
        using wt by simp
      from write_file_Inr [OF wt'] obtain qt where qt:
        "locate s2 (trigger_file a) = Inr qt" "tbl s' = (tbl s2)(qt \<mapsto> File [])"
        by blast
      have "locate s' (trigger_file a) = Inr qt"
        using qt(1) e23 by (blast intro: locate_mono)
      then have "qt = q"
        using l by simp
      then have c0: "c = []"
        using qt(2) t' by simp
      have "locate s' (out_file a) \<noteq> locate s' (trigger_file a)"
        using lo l ne by simp
      with wt' o2 have "stat s' (out_file a) = Inr (File (listing subdirs))"
        by (rule write_file_other)
      then show ?thesis
        using Inr c0 e1 ls by auto
    qed
  qed
qed

subsection \<open>C6: the trigger comes after the listing\<close>

text \<open>
  Claim C6, as amended. In every execution, whatever its outcome, the system calls that
  changed the file system are, in this order: directory creations; then, unless the run
  failed before, the open of the output file and the write of the complete listing; then,
  unless the run stopped there, the open of the trigger file and its empty write. The
  trigger step starts from a state in which the output file already holds the whole
  listing, and a run that fails before the listing is written opens no file at all.
  So, when the run itself created the trigger file (after the run the trigger path names
  a regular file, at a location that was free before the run) and this is not the file
  that the output path names, then the run has succeeded, the trigger file is empty and
  the output file holds the complete listing.

  As stated, the claim fails: the existence of the trigger file does not imply a complete
  listing when both paths name the same file (the run on \<open>same_path_args\<close> ends with the
  trigger in place and nothing of the listing in the output file), nor when the trigger
  file was there before the run (the run on \<open>stale_trigger_args\<close> cannot open its
  output, writes no listing, and the old trigger file is still there).
\<close>

theorem C6_trigger_after_listing:
  assumes run: "main a s = (r, s')"
  shows "(\<exists>mk. (\<forall>e \<in> set mk. \<exists>p q. e = Ev_mkdir p q) \<and>
    ((events s' = events s @ mk \<and> (\<exists>e. r = Inl e)) \<or>
     (\<exists>q s2 subdirs.
        list_subdirs (snd (ensure_dirs a s)) (directory a) = Inr subdirs \<and>
        events s2 = events s @ mk @ [Ev_open (out_file a) q, Ev_write q (listing subdirs)] \<and>
        stat s2 (out_file a) = Inr (File (listing subdirs)) \<and>
        create_trigger a s2 = (r, s') \<and>
        (events s' = events s2 \<or>
         (\<exists>qt. events s' = events s2 @ [Ev_open (trigger_file a) qt, Ev_write qt []]))))) \<and>
    (\<forall>q c. locate s' (trigger_file a) = Inr q \<and> node_at s q = None \<and>
        node_at s' q = Some (File c) \<and> locate s' (out_file a) \<noteq> Inr q \<longrightarrow>
        r = Inr () \<and> c = [] \<and>
        (\<exists>subdirs. list_subdirs (snd (ensure_dirs a s)) (directory a) = Inr subdirs \<and>
           stat s' (out_file a) = Inr (File (listing subdirs))))"
proof (rule conjI)
  obtain r1 s1 where e1: "ensure_dirs a s = (r1, s1)"
    by fastforce
  from grows_events [OF ensure_dirs_grows [OF e1]] obtain mk where
    mk: "events s1 = events s @ mk" "\<forall>e \<in> set mk. \<exists>p q. e = Ev_mkdir p q"
    by blast
  obtain subdirs where ls: "list_subdirs s1 (directory a) = Inr subdirs"
    using list_subdirs_Inr by blast
  obtain r2 s2 where w: "write_file (out_file a) (listing subdirs) s1 = (r2, s2)"
    by fastforce
  show "\<exists>mk. (\<forall>e \<in> set mk. \<exists>p q. e = Ev_mkdir p q) \<and>
    ((events s' = events s @ mk \<and> (\<exists>e. r = Inl e)) \<or>
     (\<exists>q s2 subdirs.
        list_subdirs (snd (ensure_dirs a s)) (directory a) = Inr subdirs \<and>
        events s2 = events s @ mk @ [Ev_open (out_file a) q, Ev_write q (listing subdirs)] \<and>
        stat s2 (out_file a) = Inr (File (listing subdirs)) \<and>
        create_trigger a s2 = (r, s') \<and>
        (events s' = events s2 \<or>
         (\<exists>qt. events s' = events s2 @ [Ev_open (trigger_file a) qt, Ev_write qt []]))))"
  proof (cases "(\<exists>u. r1 = Inr u) \<and> (\<exists>u. r2 = Inr u)")
    case False
    then have "s' = s1 \<and> (\<exists>e. r = Inl e)"
      using run e1 ls w
      by (cases r1; cases r2) (auto simp: main_def dest: write_file_Inl)
    then show ?thesis
      using mk by blast
  next
    case True
    then have w': "write_file (out_file a) (listing subdirs) s1 = (Inr (), s2)"
      using w by auto
    from write_file_Inr [OF w'] obtain q where
      q: "events s2 = events s1 @ [Ev_open (out_file a) q, Ev_write q (listing subdirs)]"
      by blast
    have c: "create_trigger a s2 = (r, s')"
      using run e1 ls w True by (auto simp: main_def)
    have "list_subdirs (snd (ensure_dirs a s)) (directory a) = Inr subdirs"
      using e1 ls by simp
    moreover have "events s2 = events s @ mk @ [Ev_open (out_file a) q, Ev_write q (listing subdirs)]"
      using q mk(1) by simp
    moreover have "stat s2 (out_file a) = Inr (File (listing subdirs))"
      using w' by (rule write_file_stat)
    ultimately show ?thesis
      using mk(2) c create_trigger_events [OF c] by blast
  qed
next
  show "\<forall>q c. locate s' (trigger_file a) = Inr q \<and> node_at s q = None \<and>
        node_at s' q = Some (File c) \<and> locate s' (out_file a) \<noteq> Inr q \<longrightarrow>
        r = Inr () \<and> c = [] \<and>
        (\<exists>subdirs. list_subdirs (snd (ensure_dirs a s)) (directory a) = Inr subdirs \<and>
           stat s' (out_file a) = Inr (File (listing subdirs)))"
    using trigger_created [OF run] by blast
qed

theorem C6_witness:
  "main demo_args demo_fs = (Inr (), snd (main demo_args demo_fs)) \<and>
   events (snd (main demo_args demo_fs)) =
     [Ev_mkdir ''/o'' [''o''], Ev_mkdir ''/o/sub'' [''o'', ''sub''],
      Ev_open ''/o/sub/list.txt'' [''o'', ''sub'', ''list.txt''],
      Ev_write [''o'', ''sub'', ''list.txt'']
        (''/d/B'' @ newline @ ''/d/a'' @ newline @ ''/d/b'' @ newline @ ''/d/ld''),
      Ev_open ''/o/done'' [''o'', ''done''], Ev_write [''o'', ''done''] []] \<and>
   locate (snd (main demo_args demo_fs)) (trigger_file demo_args) = Inr [''o'', ''done''] \<and>
   node_at demo_fs [''o'', ''done''] = None \<and>
   node_at (snd (main demo_args demo_fs)) [''o'', ''done''] = Some (File []) \<and>
   locate (snd (main demo_args demo_fs)) (out_file demo_args) \<noteq> Inr [''o'', ''done''] \<and>
   (\<exists>subdirs. list_subdirs (snd (ensure_dirs demo_args demo_fs)) (directory demo_args) = Inr subdirs \<and>
      stat (snd (main demo_args demo_fs)) (out_file demo_args) = Inr (File (listing subdirs)))"
proof -
  have run: "main demo_args demo_fs = (Inr (), snd (main demo_args demo_fs))"
    by code_simp
  have ev: "events (snd (main demo_args demo_fs)) =
     [Ev_mkdir ''/o'' [''o''], Ev_mkdir ''/o/sub'' [''o'', ''sub''],
      Ev_open ''/o/sub/list.txt'' [''o'', ''sub'', ''list.txt''],
      Ev_write [''o'', ''sub'', ''list.txt'']
        (''/d/B'' @ newline @ ''/d/a'' @ newline @ ''/d/b'' @ newline @ ''/d/ld''),
      Ev_open ''/o/done'' [''o'', ''done''], Ev_write [''o'', ''done''] []]"
    by code_simp
  have l: "locate (snd (main demo_args demo_fs)) (trigger_file demo_args) = Inr [''o'', ''done'']"
    by code_simp
  have free: "node_at demo_fs [''o'', ''done''] = None"
    by code_simp
  have f: "node_at (snd (main demo_args demo_fs)) [''o'', ''done''] = Some (File [])"
    by code_simp
  have ap: "locate (snd (main demo_args demo_fs)) (out_file demo_args) \<noteq> Inr [''o'', ''done'']"
    by code_simp
  from C6_trigger_after_listing [OF run] l free f ap
  have "\<exists>subdirs. list_subdirs (snd (ensure_dirs demo_args demo_fs)) (directory demo_args) = Inr subdirs \<and>
      stat (snd (main demo_args demo_fs)) (out_file demo_args) = Inr (File (listing subdirs))"
    by blast
  then show ?thesis
    using run ev l free f ap by (intro conjI)
qed

theorem C6_counterexample:
  "fst (main same_path_args demo_fs) = Inr () \<and>
   \<not> exists_path demo_fs (trigger_file same_path_args) \<and>
   stat (snd (main same_path_args demo_fs)) (trigger_file same_path_args) = Inr (File []) \<and>
   list_subdirs (snd (ensure_dirs same_path_args demo_fs)) (directory same_path_args) =
     Inr [''/d/b'', ''/d/a'', ''/d/B'', ''/d/ld''] \<and>
   stat (snd (main same_path_args demo_fs)) (out_file same_path_args) = Inr (File []) \<and>
   fst (main stale_trigger_args demo_fs) = Inl EISDIR \<and>
   stat (snd (main stale_trigger_args demo_fs)) (trigger_file stale_trigger_args) = Inr (File ''hi'') \<and>
   stat (snd (main stale_trigger_args demo_fs)) (out_file stale_trigger_args) = Inr Dir \<and>
   events (snd (main stale_trigger_args demo_fs)) = []"
  by code_simp

lemma main_shape:
  assumes run: "main a s = (r, s')"
  shows "\<exists>s1 s2.
      grows (\<lambda>p. on_path p (dirname (out_file a)) \<or>
               (trigger_file a \<noteq> [] \<and> on_path p (dirname (trigger_file a)))) s s1 \<and>
      wrote (out_file a) s1 s2 \<and>
      (s' = s2 \<or> (trigger_file a \<noteq> [] \<and> wrote (trigger_file a) s2 s'))"
proof -
  obtain r1 s1 where e1: "ensure_dirs a s = (r1, s1)"
    by fastforce
  note g = ensure_dirs_grows [OF e1]
  obtain subdirs where ls: "list_subdirs s1 (directory a) = Inr subdirs"
    using list_subdirs_Inr by blast
  obtain r2 s2 where w: "write_file (out_file a) (listing subdirs) s1 = (r2, s2)"
    by fastforce
  note w1 = write_file_wrote [OF w]
  show ?thesis
  proof (cases "(\<exists>u. r1 = Inr u) \<and> (\<exists>u. r2 = Inr u)")
    case False
    then have "s' = s1"
      using run e1 ls w
      by (cases r1; cases r2) (auto simp: main_def dest: write_file_Inl)
    moreover have "wrote (out_file a) s1 s1"
      by (simp add: wrote_def)
    ultimately show ?thesis
      using g by blast
  next
    case True
    then have c: "create_trigger a s2 = (r, s')"
      using run e1 ls w by (auto simp: main_def)
    have "s' = s2 \<or> (trigger_file a \<noteq> [] \<and> wrote (trigger_file a) s2 s')"
      using c by (auto simp: create_trigger_def split: if_splits dest: write_file_wrote)
    then show ?thesis
      using g w1 by blast
  qed
qed

lemma wrote_frame:
  assumes "wrote p s s'"
  shows "tbl s' q = tbl s q \<or>
     ((tbl s q = None \<or> (\<exists>c. tbl s q = Some (File c))) \<and>
      (\<exists>c. tbl s' q = Some (File c)) \<and> locate s p = Inr q)"
proof -
  from assms consider "s' = s"
    | qa data where "locate s p = Inr qa" "tbl s qa = None \<or> (\<exists>c. tbl s qa = Some (File c))"
        "tbl s' = (tbl s)(qa \<mapsto> File data)"
    unfolding wrote_def by blast
  then show ?thesis
  proof cases
    case 1
    then show ?thesis by simp
  next
    case 2
    then show ?thesis by (cases "q = qa") auto
  qed
qed

lemma wrote_events: "wrote p s s' \<Longrightarrow> \<exists>rest. events s' = events s @ rest"
  unfolding wrote_def by auto

lemma lies_inI: "on_path p f \<Longrightarrow> locate s p = Inr (d @ [n]) \<Longrightarrow> lies_in s d f"
  unfolding lies_in_def list_ex_iff on_path_def by (auto simp: in_set_prefixes)

lemma main_frame:
  assumes run: "main a s = (r, s')"
  shows "cwd s' = cwd s \<and> ext (tbl s) (tbl s') \<and>
    (\<forall>q. node_at s' q = node_at s q \<or>
       (node_at s q = None \<and> node_at s' q = Some Dir \<and>
        (\<exists>p. Ev_mkdir p q \<in> set (drop (length (events s)) (events s')) \<and> locate s' p = Inr q \<and>
             (on_path p (dirname (out_file a)) \<or>
              (trigger_file a \<noteq> [] \<and> on_path p (dirname (trigger_file a)))))) \<or>
       ((node_at s q = None \<or> (\<exists>c. node_at s q = Some (File c))) \<and>
        (\<exists>c. node_at s' q = Some (File c)) \<and>
        (locate s' (out_file a) = Inr q \<or>
         (trigger_file a \<noteq> [] \<and> locate s' (trigger_file a) = Inr q))))"
proof -
  define P where "P = (\<lambda>p. on_path p (dirname (out_file a)) \<or>
               (trigger_file a \<noteq> [] \<and> on_path p (dirname (trigger_file a))))"
  from main_shape [OF run] obtain s1 s2 where
    g: "grows P s s1" and w1: "wrote (out_file a) s1 s2" and
    w2: "s' = s2 \<or> (trigger_file a \<noteq> [] \<and> wrote (trigger_file a) s2 s')"
    unfolding P_def by blast
  from g obtain mk where mk: "cwd s1 = cwd s" "events s1 = events s @ mk"
    "\<And>e. e \<in> set mk \<Longrightarrow> \<exists>p q. e = Ev_mkdir p q \<and> P p"
    "\<And>q nd. tbl s q = Some nd \<Longrightarrow> tbl s1 q = Some nd"
    "\<And>q. tbl s q = None \<Longrightarrow>
       tbl s1 q = None \<or> (tbl s1 q = Some Dir \<and> (\<exists>p. Ev_mkdir p q \<in> set mk \<and> locate s1 p = Inr q))"
    unfolding grows_def by blast
  have e01: "ext (tbl s) (tbl s1)"
    using g by (rule grows_ext)
  have e12: "ext (tbl s1) (tbl s2)" "cwd s2 = cwd s1"
    using wrote_ext [OF w1] by simp_all
  have e23: "ext (tbl s2) (tbl s')" "cwd s' = cwd s2"
    using w2 wrote_ext [of "trigger_file a" s2 s'] by (auto intro: ext_refl)
  have e13: "ext (tbl s1) (tbl s')"
    using e12(1) e23(1) by (rule ext_trans)
  have e03: "ext (tbl s) (tbl s')"
    using e01 e13 by (rule ext_trans)
  obtain rest1 where r1: "events s2 = events s1 @ rest1"
    using wrote_events [OF w1] by blast
  obtain rest2 where r2: "events s' = events s2 @ rest2"
    using w2 wrote_events [of "trigger_file a" s2 s'] by auto
  have new: "drop (length (events s)) (events s') = mk @ rest1 @ rest2"
    using mk(2) r1 r2 by simp
  have c: "cwd s' = cwd s"
    using mk(1) e12(2) e23(2) by simp
  have stepA: "tbl s1 q = tbl s q \<or>
      (tbl s q = None \<and> tbl s1 q = Some Dir \<and>
       (\<exists>p. Ev_mkdir p q \<in> set (drop (length (events s)) (events s')) \<and> locate s' p = Inr q \<and> P p))" for q
  proof (cases "tbl s q")
    case None
    from mk(5) [OF None] show ?thesis
    proof
      assume "tbl s1 q = None"
      then show ?thesis using None by simp
    next
      assume d: "tbl s1 q = Some Dir \<and> (\<exists>p. Ev_mkdir p q \<in> set mk \<and> locate s1 p = Inr q)"
      then obtain p where p: "Ev_mkdir p q \<in> set mk" "locate s1 p = Inr q"
        by blast
      from mk(3) [OF p(1)] have "P p"
        by auto
      moreover have "locate s' p = Inr q"
        using p(2) e13 e12(2) e23(2) by (auto intro: locate_mono)
      ultimately show ?thesis
        using None d p(1) new by auto
    qed
  next
    case (Some nd)
    then show ?thesis using mk(4) by simp
  qed
  have stepB: "tbl s2 q = tbl s1 q \<or>
     ((tbl s1 q = None \<or> (\<exists>c. tbl s1 q = Some (File c))) \<and>
      (\<exists>c. tbl s2 q = Some (File c)) \<and> locate s' (out_file a) = Inr q)" for q
    using wrote_frame [OF w1, of q] locate_mono [of s' s1 "out_file a" q] e13 e12(2) e23(2)
    by auto
  have stepC: "tbl s' q = tbl s2 q \<or>
     (trigger_file a \<noteq> [] \<and> (tbl s2 q = None \<or> (\<exists>c. tbl s2 q = Some (File c))) \<and>
      (\<exists>c. tbl s' q = Some (File c)) \<and> locate s' (trigger_file a) = Inr q)" for q
  proof (cases "s' = s2")
    case True
    then show ?thesis by simp
  next
    case False
    then have t: "trigger_file a \<noteq> []" and w: "wrote (trigger_file a) s2 s'"
      using w2 by auto
    show ?thesis
      using wrote_frame [OF w, of q] locate_mono [of s' s2 "trigger_file a" q] e23 t
      by auto
  qed
  have frame: "node_at s' q = node_at s q \<or>
       (node_at s q = None \<and> node_at s' q = Some Dir \<and>
        (\<exists>p. Ev_mkdir p q \<in> set (drop (length (events s)) (events s')) \<and> locate s' p = Inr q \<and> P p)) \<or>
       ((node_at s q = None \<or> (\<exists>c. node_at s q = Some (File c))) \<and>
        (\<exists>c. node_at s' q = Some (File c)) \<and>
        (locate s' (out_file a) = Inr q \<or>
         (trigger_file a \<noteq> [] \<and> locate s' (trigger_file a) = Inr q)))" for q
  proof (cases "q = []")
    case True
    then show ?thesis by (simp add: node_at_def)
  next
    case False
    then have n: "node_at s q = tbl s q" "node_at s' q = tbl s' q"
      by (simp_all add: node_at_def)
    have fileish1: "tbl s q = None \<or> (\<exists>c. tbl s q = Some (File c))"
      if "tbl s1 q = None \<or> (\<exists>c. tbl s1 q = Some (File c))"
      using stepA [of q] that by auto
    have fileish2: "tbl s1 q = None \<or> (\<exists>c. tbl s1 q = Some (File c))"
      if "tbl s2 q = None \<or> (\<exists>c. tbl s2 q = Some (File c))"
      using stepB [of q] that by auto
    from stepC [of q] show ?thesis
    proof
      assume c3: "tbl s' q = tbl s2 q"
      from stepB [of q] show ?thesis
      proof
        assume c2: "tbl s2 q = tbl s1 q"
        then have "tbl s' q = tbl s1 q"
          using c3 by simp
        then show ?thesis
          unfolding n using stepA [of q] by auto
      next
        assume b: "(tbl s1 q = None \<or> (\<exists>c. tbl s1 q = Some (File c))) \<and>
          (\<exists>c. tbl s2 q = Some (File c)) \<and> locate s' (out_file a) = Inr q"
        then have "tbl s q = None \<or> (\<exists>c. tbl s q = Some (File c))"
          using fileish1 by blast
        then show ?thesis
          unfolding n using b c3 by simp
      qed
    next
      assume t: "trigger_file a \<noteq> [] \<and> (tbl s2 q = None \<or> (\<exists>c. tbl s2 q = Some (File c))) \<and>
        (\<exists>c. tbl s' q = Some (File c)) \<and> locate s' (trigger_file a) = Inr q"
      then have "tbl s q = None \<or> (\<exists>c. tbl s q = Some (File c))"
        using fileish1 fileish2 by blast
      then show ?thesis
        unfolding n using t by simp
    qed
  qed
  show ?thesis
    by (rule conjI [OF c conjI [OF e03 allI [OF frame [unfolded P_def]]]])
qed

subsection \<open>C9: the frame of a run\<close>

text \<open>
  Claim C9, as amended. Whatever the outcome of a run, the working directory is
  unchanged, and every location of the file system keeps its node, with two exceptions:
  a location that was free and now holds a directory, created by a \<^verbatim>\<open>mkdir\<close> of this run
  on a path that is a leading part, name by name, of the parent path of the output or
  trigger file, and that names the new directory; and a location that was free or a
  regular file and is now the regular file that the output or the trigger path names. So
  every directory, every symbolic link and every other file that existed is as it was.
  For the target: when it is a directory, and neither the output file, the trigger file
  nor a directory on the way to them is an entry of it, then after the run it is the same
  directory with the same entries, each of them unchanged.

  As stated, with the target and its children unchanged in every run, the claim fails:
  the run on \<open>inside_args\<close> below puts the output file and the parent directory of the
  trigger file into the target, overwriting one of its children and adding another.
\<close>

theorem C9_side_effects_confined:
  assumes run: "main a s = (r, s')"
  shows "cwd s' = cwd s \<and>
    (\<forall>q. node_at s' q = node_at s q \<or>
       (node_at s q = None \<and> node_at s' q = Some Dir \<and>
        (\<exists>p. Ev_mkdir p q \<in> set (drop (length (events s)) (events s')) \<and> locate s' p = Inr q \<and>
             (on_path p (dirname (out_file a)) \<or>
              (trigger_file a \<noteq> [] \<and> on_path p (dirname (trigger_file a)))))) \<or>
       ((node_at s q = None \<or> (\<exists>c. node_at s q = Some (File c))) \<and>
        (\<exists>c. node_at s' q = Some (File c)) \<and>
        (locate s' (out_file a) = Inr q \<or>
         (trigger_file a \<noteq> [] \<and> locate s' (trigger_file a) = Inr q)))) \<and>
    (\<forall>d. locate s (directory a) = Inr d \<and> node_at s d = Some Dir \<and>
         \<not> lies_in s' d (out_file a) \<and> \<not> lies_in s' d (trigger_file a) \<longrightarrow>
         locate s' (directory a) = Inr d \<and> node_at s' d = Some Dir \<and>
         (\<forall>n. node_at s' (d @ [n]) = node_at s (d @ [n])) \<and>
         set (children s' d) = set (children s d))"
proof -
  note fr = main_frame [OF run]
  have target: "locate s' (directory a) = Inr d \<and> node_at s' d = Some Dir \<and>
         (\<forall>n. node_at s' (d @ [n]) = node_at s (d @ [n])) \<and>
         set (children s' d) = set (children s d)"
    if l: "locate s (directory a) = Inr d" and dn: "node_at s d = Some Dir"
      and no: "\<not> lies_in s' d (out_file a)" and nt: "\<not> lies_in s' d (trigger_file a)" for d
  proof -
    have l': "locate s' (directory a) = Inr d"
      using l fr by (blast intro: locate_mono)
    have d': "node_at s' d = Some Dir"
      using fr dn by (metis node.distinct(1) option.distinct(1) option.inject)
    have ch: "node_at s' (d @ [n]) = node_at s (d @ [n])" for n
    proof (rule ccontr)
      assume ne: "node_at s' (d @ [n]) \<noteq> node_at s (d @ [n])"
      from fr have "node_at s' (d @ [n]) = node_at s (d @ [n]) \<or>
        (\<exists>p. locate s' p = Inr (d @ [n]) \<and>
             (on_path p (dirname (out_file a)) \<or>
              (trigger_file a \<noteq> [] \<and> on_path p (dirname (trigger_file a))))) \<or>
        (locate s' (out_file a) = Inr (d @ [n]) \<or>
         (trigger_file a \<noteq> [] \<and> locate s' (trigger_file a) = Inr (d @ [n])))"
        by blast
      with ne consider p where "locate s' p = Inr (d @ [n])" "on_path p (dirname (out_file a))"
        | p where "locate s' p = Inr (d @ [n])" "on_path p (dirname (trigger_file a))"
        | "locate s' (out_file a) = Inr (d @ [n])"
        | "locate s' (trigger_file a) = Inr (d @ [n])"
        by blast
      then show False
      proof cases
        case 1
        then show False
          using no lies_inI [of p "out_file a" s' d n] on_path_trans [OF _ on_path_dirname] by blast
      next
        case 2
        then show False
          using nt lies_inI [of p "trigger_file a" s' d n] on_path_trans [OF _ on_path_dirname] by blast
      next
        case 3
        then show False
          using no lies_inI [of "out_file a" "out_file a" s' d n] on_path_refl by blast
      next
        case 4
        then show False
          using nt lies_inI [of "trigger_file a" "trigger_file a" s' d n] on_path_refl by blast
      qed
    qed
    have "set (children s' d) = set (children s d)"
      using ch by (auto simp: children_set node_at_def)
    then show ?thesis
      using l' d' ch by blast
  qed
  show ?thesis
    using fr target by blast
qed

theorem C9_witness:
  "main demo_args demo_fs = (Inr (), snd (main demo_args demo_fs)) \<and>
   locate demo_fs (directory demo_args) = Inr [''d''] \<and> node_at demo_fs [''d''] = Some Dir \<and>
   \<not> lies_in (snd (main demo_args demo_fs)) [''d''] (out_file demo_args) \<and>
   \<not> lies_in (snd (main demo_args demo_fs)) [''d''] (trigger_file demo_args) \<and>
   lies_in (snd (main inside_args demo_fs)) [''d''] (out_file inside_args) \<and>
   node_at (snd (main demo_args demo_fs)) [''d'', ''x''] = Some (File ''hi'') \<and>
   cwd (snd (main demo_args demo_fs)) = cwd demo_fs \<and>
   locate (snd (main demo_args demo_fs)) (directory demo_args) = Inr [''d''] \<and>
   node_at (snd (main demo_args demo_fs)) [''d''] = Some Dir \<and>
   (\<forall>n. node_at (snd (main demo_args demo_fs)) ([''d''] @ [n]) = node_at demo_fs ([''d''] @ [n])) \<and>
   set (children (snd (main demo_args demo_fs)) [''d'']) = set (children demo_fs [''d'']) \<and>
   (\<forall>q. node_at (snd (main demo_args demo_fs)) q = node_at demo_fs q \<or>
       (node_at demo_fs q = None \<and> node_at (snd (main demo_args demo_fs)) q = Some Dir \<and>
        (\<exists>p. Ev_mkdir p q \<in> set (drop (length (events demo_fs)) (events (snd (main demo_args demo_fs)))) \<and>
             locate (snd (main demo_args demo_fs)) p = Inr q \<and>
             (on_path p (dirname (out_file demo_args)) \<or>
              (trigger_file demo_args \<noteq> [] \<and> on_path p (dirname (trigger_file demo_args)))))) \<or>
       ((node_at demo_fs q = None \<or> (\<exists>c. node_at demo_fs q = Some (File c))) \<and>
        (\<exists>c. node_at (snd (main demo_args demo_fs)) q = Some (File c)) \<and>
        (locate (snd (main demo_args demo_fs)) (out_file demo_args) = Inr q \<or>
         (trigger_file demo_args \<noteq> [] \<and> locate (snd (main demo_args demo_fs)) (trigger_file demo_args) = Inr q))))"
proof -
  have run: "main demo_args demo_fs = (Inr (), snd (main demo_args demo_fs))"
    by code_simp
  have l: "locate demo_fs (directory demo_args) = Inr [''d'']"
    by code_simp
  have dn: "node_at demo_fs [''d''] = Some Dir"
    by code_simp
  have no: "\<not> lies_in (snd (main demo_args demo_fs)) [''d''] (out_file demo_args)"
    by code_simp
  have nt: "\<not> lies_in (snd (main demo_args demo_fs)) [''d''] (trigger_file demo_args)"
    by code_simp
  have li: "lies_in (snd (main inside_args demo_fs)) [''d''] (out_file inside_args)"
    by code_simp
  have x: "node_at (snd (main demo_args demo_fs)) [''d'', ''x''] = Some (File ''hi'')"
    by code_simp
  note t = C9_side_effects_confined [OF run]
  have tg: "locate (snd (main demo_args demo_fs)) (directory demo_args) = Inr [''d''] \<and>
      node_at (snd (main demo_args demo_fs)) [''d''] = Some Dir \<and>
      (\<forall>n. node_at (snd (main demo_args demo_fs)) ([''d''] @ [n]) = node_at demo_fs ([''d''] @ [n])) \<and>
      set (children (snd (main demo_args demo_fs)) [''d'']) = set (children demo_fs [''d''])"
    using t l dn no nt by blast
  show ?thesis
    using t tg by (intro conjI run l dn no nt li x) blast+
qed

theorem C9_counterexample:
  "fst (main inside_args demo_fs) = Inr () \<and>
   locate demo_fs (directory inside_args) = Inr [''d''] \<and> node_at demo_fs [''d''] = Some Dir \<and>
   node_at demo_fs [''d'', ''x''] = Some (File ''hi'') \<and>
   node_at (snd (main inside_args demo_fs)) [''d'', ''x''] =
     Some (File (''/d/B'' @ newline @ ''/d/a'' @ newline @ ''/d/b'' @ newline @ ''/d/ld'' @ newline @ ''/d/new'')) \<and>
   node_at demo_fs [''d'', ''new''] = None \<and>
   node_at (snd (main inside_args demo_fs)) [''d'', ''new''] = Some Dir \<and>
   children demo_fs [''d''] = [''b'', ''x'', ''a'', ''B'', ''ld'', ''lf''] \<and>
   children (snd (main inside_args demo_fs)) [''d''] = [''b'', ''x'', ''a'', ''B'', ''ld'', ''lf'', ''new'']"
  by code_simp

lemma comps_join:
  assumes "base \<noteq> []" "n \<noteq> []" "sep \<notin> set n"
  shows "lookup_comps (path_join base n) = comps base @ [n]"
    and "startswith_sep (path_join base n) = startswith_sep base"
    and "path_join base n \<noteq> []"
proof -
  have ns: "\<not> startswith_sep n"
    using assms(2,3) by (cases n) (auto simp: startswith_sep_def)
  have ne: "\<not> endswith_sep (x @ n)" for x
  proof -
    have "last (x @ n) = last n"
      using assms(2) by simp
    moreover have "last n \<in> set n"
      using assms(2) by simp
    ultimately show ?thesis
      using assms(3) by (metis endswith_sep_def)
  qed
  show "lookup_comps (path_join base n) = comps base @ [n]"
  proof (cases "endswith_sep base")
    case True
    then obtain b where b: "base = b @ [sep]"
      unfolding endswith_sep_def by (metis append_butlast_last_id)
    have "comps (base @ n) = comps b @ [n]"
      using b comps_append [of b n] comps_name [OF assms(2,3)] by simp
    moreover have "comps base = comps b"
      using b comps_append [of b "[]"] by (simp add: comps_empty)
    ultimately show ?thesis
      using True ns ne [of base] by (simp add: path_join_def lookup_comps_def)
  next
    case False
    have "comps (base @ sep # n) = comps base @ [n]"
      using comps_append [of base n] comps_name [OF assms(2,3)] by simp
    then show ?thesis
      using False ns assms(1) ne [of "base @ [sep]"] by (simp add: path_join_def lookup_comps_def)
  qed
  show "startswith_sep (path_join base n) = startswith_sep base"
    using assms(1) ns by (cases base) (auto simp: path_join_def startswith_sep_def)
  show "path_join base n \<noteq> []"
    using assms(1,2) by (auto simp: path_join_def)
qed

lemma path_join_inj:
  assumes "\<not> startswith_sep n" "\<not> startswith_sep n'" "path_join base n = path_join base n'"
  shows "n = n'"
  using assms by (auto simp: path_join_def split: if_splits)

lemma walk_child:
  "walk k m cur (cs @ ex) fl = Inr d \<Longrightarrow> fl \<Longrightarrow> ex = [] \<or> ex = [''.''] \<Longrightarrow>
   d = [] \<or> m d = Some Dir \<Longrightarrow> rest \<noteq> [] \<Longrightarrow>
   \<exists>k'. walk k m cur (cs @ rest) fl = walk k' m d rest fl"
proof (induction k m cur cs fl rule: walk.induct)
  case (1 k m cur follow)
  then have "d = cur"
    by auto
  then show ?case
    by auto
next
  case (2 k m cur c cs follow)
  show ?case
  proof (cases "c = ''.'' \<or> c = ''..''")
    case True
    then show ?thesis
      using 2 by auto
  next
    case False
    show ?thesis
    proof (cases "m (cur @ [c])")
      case None
      then show ?thesis
        using False "2.prems" by (auto split: if_splits)
    next
      case (Some nd)
      show ?thesis
      proof (cases nd)
        case (File x)
        then show ?thesis
          using False Some "2.prems" by (auto split: if_splits)
      next
        case Dir
        then show ?thesis
          using False Some 2 by auto
      next
        case (Link t)
        show ?thesis
        proof (cases k)
          case 0
          then show ?thesis
            using False Some Link "2.prems" by (auto split: if_splits)
        next
          case (Suc k0)
          have t: "t \<noteq> []" and
            w: "walk k0 m (if startswith_sep t then [] else cur) ((lookup_comps t @ cs) @ ex) follow = Inr d"
            using False Some Link Suc "2.prems" by (auto split: if_splits)
          have "\<exists>k'. walk k0 m (if startswith_sep t then [] else cur) ((lookup_comps t @ cs) @ rest) follow =
              walk k' m d rest follow"
            using "2.IH"(4) [of nd t k0] False Some Link Suc t w "2.prems"(2-5) by auto
          then show ?thesis
            using False Some Link Suc t "2.prems"(2,5) by auto
        qed
      qed
    qed
  qed
qed

lemma locate_child:
  assumes b: "locate s base = Inr d" and d: "node_at s d = Some Dir"
    and n: "valid_name n"
  shows "\<exists>k'. locate s (path_join base n) = walk k' (tbl s) d [n] True"
proof -
  have bn: "base \<noteq> []"
    using b by (auto simp: locate_def resolve_def split: if_splits)
  have nn: "n \<noteq> []" "sep \<notin> set n"
    using n by (simp_all add: valid_name_def)
  have w: "walk MAXSYMLINKS (tbl s) (if startswith_sep base then [] else cwd s)
      (comps base @ (if endswith_sep base then [''.''] else [])) True = Inr d"
    using b bn by (simp add: locate_def resolve_def lookup_comps_def)
  have d': "d = [] \<or> tbl s d = Some Dir"
    using d by (auto simp: node_at_def split: if_splits)
  have ex: "(if endswith_sep base then [''.''] else []) = [] \<or>
      (if endswith_sep base then [''.''] else []) = [''.'']"
    by simp
  have ne: "[n] \<noteq> []"
    by simp
  from walk_child [OF w TrueI ex d' ne] obtain k' where k':
    "walk MAXSYMLINKS (tbl s) (if startswith_sep base then [] else cwd s) (comps base @ [n]) True =
      walk k' (tbl s) d [n] True"
    by blast
  have "locate s (path_join base n) =
      walk MAXSYMLINKS (tbl s) (if startswith_sep base then [] else cwd s) (comps base @ [n]) True"
    using comps_join [OF bn nn] by (simp add: locate_def resolve_def del: walk.simps)
  with k' show ?thesis
    by (metis (no_types))
qed

lemma stat_child:
  assumes b: "locate s base = Inr d" and d: "node_at s d = Some Dir"
    and n: "valid_name n"
    and k: "node_at s (d @ [n]) = None \<or> node_at s (d @ [n]) = Some Dir \<or>
            node_at s (d @ [n]) = Some (File c)"
  shows "stat s (path_join base n) =
     (case node_at s (d @ [n]) of None \<Rightarrow> Inl ENOENT | Some nd \<Rightarrow> Inr nd)"
proof -
  from locate_child [OF b d n] obtain k' where
    l: "locate s (path_join base n) = walk k' (tbl s) d [n] True"
    by blast
  have nd: "n \<noteq> ''.''" "n \<noteq> ''..''"
    using n by (simp_all add: valid_name_def)
  have "walk k' (tbl s) d [n] True = Inr (d @ [n])"
    using k nd by (auto simp: node_at_def)
  then show ?thesis
    using l by (simp add: stat_def)
qed

lemma collect_eq:
  "collect s b items acc = acc @ map (path_join b) (filter (\<lambda>n. isdir s (path_join b n)) items)"
  by (induction items arbitrary: acc) (simp_all add: Let_def)

lemma names_ok_child: "names_ok s \<Longrightarrow> tbl s (d @ [n]) \<noteq> None \<Longrightarrow> valid_name n"
proof -
  assume ok: "names_ok s" and "tbl s (d @ [n]) \<noteq> None"
  then obtain nd where "(d @ [n], nd) \<in> set (entries s)"
    by (auto dest: map_of_SomeD)
  then have "list_all valid_name (d @ [n])"
    using ok by (auto simp: names_ok_def list_all_iff)
  then show ?thesis
    by simp
qed

lemma valid_name_no_start: "valid_name n \<Longrightarrow> \<not> startswith_sep n"
  by (cases n) (auto simp: valid_name_def startswith_sep_def)

subsection \<open>C2: which paths are retained\<close>

text \<open>
  Claim C2. For a target that is a directory, at location \<open>d\<close>, the retained list is, in
  enumeration order, the join of the target path with each name in \<open>d\<close> whose joined path
  \<^verbatim>\<open>os.path.isdir\<close> accepts. The names enumerated are exactly the entries directly in
  \<open>d\<close>, so nothing from a deeper level is retained. By kind of entry: a directory is
  retained, a regular file is not, and a symbolic link is retained exactly when its joined
  path resolves to a directory (so a link to a directory is in, a link to a file is out).
  The table is assumed to hold proper names only (\<open>names_ok\<close>: no empty name, no
  separator in a name, no entry called \<^verbatim>\<open>.\<close> or \<^verbatim>\<open>..\<close>).
\<close>

theorem C2_retained_subdirectories:
  assumes ok: "names_ok s" and isd: "isdir s base"
  shows "\<exists>d subdirs.
      locate s base = Inr d \<and> node_at s d = Some Dir \<and>
      list_subdirs s base = Inr subdirs \<and>
      subdirs = map (path_join base) (filter (\<lambda>n. isdir s (path_join base n)) (children s d)) \<and>
      set (children s d) = {n. node_at s (d @ [n]) \<noteq> None} \<and>
      (\<forall>x \<in> set subdirs. \<exists>n. x = path_join base n \<and> valid_name n \<and>
           node_at s (d @ [n]) \<noteq> None \<and> isdir s x) \<and>
      (\<forall>n. valid_name n \<longrightarrow>
         (case node_at s (d @ [n]) of
            None \<Rightarrow> path_join base n \<notin> set subdirs
          | Some Dir \<Rightarrow> path_join base n \<in> set subdirs
          | Some (File c) \<Rightarrow> path_join base n \<notin> set subdirs
          | Some (Link t) \<Rightarrow> (path_join base n \<in> set subdirs \<longleftrightarrow> isdir s (path_join base n))))"
proof -
  from isd obtain d where loc: "locate s base = Inr d" and dn: "node_at s d = Some Dir"
    by (auto simp: isdir_def stat_def split: sum.splits option.splits node.splits)
  define subdirs where
    "subdirs = map (path_join base) (filter (\<lambda>n. isdir s (path_join base n)) (children s d))"
  have ls: "list_subdirs s base = Inr subdirs"
    using isd loc by (simp add: list_subdirs_total collect_eq subdirs_def)
  have ch: "set (children s d) = {n. node_at s (d @ [n]) \<noteq> None}"
    by (simp add: children_set node_at_def)
  have chv: "valid_name n" if "n \<in> set (children s d)" for n
    using that ok names_ok_child [of s d n] by (simp add: children_set)
  have mem: "path_join base n \<in> set subdirs \<longleftrightarrow>
      node_at s (d @ [n]) \<noteq> None \<and> isdir s (path_join base n)" if v: "valid_name n" for n
  proof
    assume "path_join base n \<in> set subdirs"
    then obtain n' where n': "n' \<in> set (children s d)" "isdir s (path_join base n')"
      "path_join base n = path_join base n'"
      by (auto simp: subdirs_def)
    then have "n = n'"
      using path_join_inj valid_name_no_start [OF v] valid_name_no_start [OF chv [OF n'(1)]]
      by blast
    then show "node_at s (d @ [n]) \<noteq> None \<and> isdir s (path_join base n)"
      using n' ch by auto
  next
    assume "node_at s (d @ [n]) \<noteq> None \<and> isdir s (path_join base n)"
    then show "path_join base n \<in> set subdirs"
      using ch by (auto simp: subdirs_def)
  qed
  have elems: "\<forall>x \<in> set subdirs. \<exists>n. x = path_join base n \<and> valid_name n \<and>
           node_at s (d @ [n]) \<noteq> None \<and> isdir s x"
    using chv ch by (auto simp: subdirs_def)
  have kinds: "case node_at s (d @ [n]) of
            None \<Rightarrow> path_join base n \<notin> set subdirs
          | Some Dir \<Rightarrow> path_join base n \<in> set subdirs
          | Some (File c) \<Rightarrow> path_join base n \<notin> set subdirs
          | Some (Link t) \<Rightarrow> (path_join base n \<in> set subdirs \<longleftrightarrow> isdir s (path_join base n))"
    if v: "valid_name n" for n
  proof (cases "node_at s (d @ [n])")
    case None
    then show ?thesis using mem [OF v] by simp
  next
    case (Some nd)
    show ?thesis
    proof (cases nd)
      case (File c)
      then have "stat s (path_join base n) = Inr (File c)"
        using stat_child [OF loc dn v, of c] Some by simp
      then show ?thesis
        using Some File mem [OF v] by (simp add: isdir_def)
    next
      case Dir
      then have "stat s (path_join base n) = Inr Dir"
        using stat_child [OF loc dn v] Some by simp
      then show ?thesis
        using Some Dir mem [OF v] by (simp add: isdir_def)
    next
      case (Link t)
      then show ?thesis
        using Some mem [OF v] by simp
    qed
  qed
  show ?thesis
    using loc dn ls subdirs_def ch elems kinds by blast
qed

theorem C2_witness:
  "names_ok demo_fs \<and> isdir demo_fs ''/d'' \<and>
   list_subdirs demo_fs ''/d'' = Inr [''/d/b'', ''/d/a'', ''/d/B'', ''/d/ld''] \<and>
   children demo_fs [''d''] = [''b'', ''x'', ''a'', ''B'', ''ld'', ''lf''] \<and>
   (\<exists>d subdirs.
      locate demo_fs ''/d'' = Inr d \<and> node_at demo_fs d = Some Dir \<and>
      list_subdirs demo_fs ''/d'' = Inr subdirs \<and>
      subdirs = map (path_join ''/d'') (filter (\<lambda>n. isdir demo_fs (path_join ''/d'' n)) (children demo_fs d)) \<and>
      set (children demo_fs d) = {n. node_at demo_fs (d @ [n]) \<noteq> None} \<and>
      (\<forall>x \<in> set subdirs. \<exists>n. x = path_join ''/d'' n \<and> valid_name n \<and>
           node_at demo_fs (d @ [n]) \<noteq> None \<and> isdir demo_fs x) \<and>
      (\<forall>n. valid_name n \<longrightarrow>
         (case node_at demo_fs (d @ [n]) of
            None \<Rightarrow> path_join ''/d'' n \<notin> set subdirs
          | Some Dir \<Rightarrow> path_join ''/d'' n \<in> set subdirs
          | Some (File c) \<Rightarrow> path_join ''/d'' n \<notin> set subdirs
          | Some (Link t) \<Rightarrow> (path_join ''/d'' n \<in> set subdirs \<longleftrightarrow> isdir demo_fs (path_join ''/d'' n)))))"
proof -
  have ok: "names_ok demo_fs"
    by code_simp
  have isd: "isdir demo_fs ''/d''"
    by code_simp
  have ls: "list_subdirs demo_fs ''/d'' = Inr [''/d/b'', ''/d/a'', ''/d/B'', ''/d/ld'']"
    by code_simp
  have ch: "children demo_fs [''d''] = [''b'', ''x'', ''a'', ''B'', ''ld'', ''lf'']"
    by code_simp
  show ?thesis
    by (intro conjI ok isd ls ch C2_retained_subdirectories [OF ok isd])
qed

















subsection \<open>C4: the enumeration order does not matter\<close>



subsection \<open>C7: the parent directory of the output file\<close>

text \<open>
  Claim C7 says that for every output path the parent directory is ensured first, with
  no error when it already exists. The run below is on an output path that is a bare
  file name: its parent is the working directory, which exists and is a directory, yet
  \<^verbatim>\<open>os.makedirs(os.path.dirname(out_file))\<close> is \<^verbatim>\<open>os.makedirs('')\<close> and raises, and the
  run ends before anything is listed or written.
\<close>

theorem C7_bare_file_name_fails:
  "isdir demo_fs ''.'' \<and> dirname (out_file bare_name_args) = [] \<and>
   main bare_name_args demo_fs = (Inl ENOENT, demo_fs)"
  by code_simp

end
